theory Spec2Isabelle
  imports Main "HOL-Library.Word" "HOL-Library.AList"
begin

unbundle bit_operations_syntax

section \<open>Hashing and line utilities\<close>

text \<open>
  \<open>fnv1a_hash\<close> reads its input through a \<open>const char*\<close> and converts each \<open>char\<close> with
  \<open>static_cast<uint64_t>(data[i])\<close>. Whether plain \<open>char\<close> is signed is fixed by the
  platform's ABI (signed on x86 and x86-64 with GCC, Clang and MSVC; unsigned on Arm
  Linux), so the conversion takes it as the parameter \<open>char_signed\<close>: a signed \<open>char\<close> is
  sign-extended to 64 bits, an unsigned one zero-extended.
\<close>

definition char_to_uint64 :: "bool \<Rightarrow> char \<Rightarrow> 64 word" where
  "char_to_uint64 char_signed c =
     (if char_signed then scast (of_char c :: 8 word) else ucast (of_char c :: 8 word))"

definition fnv1a_hash :: "bool \<Rightarrow> string \<Rightarrow> 64 word" where
  "fnv1a_hash char_signed data =
     fold (\<lambda>c hash. (hash XOR char_to_uint64 char_signed c) * 1099511628211)
       data 14695981039346656037"

text \<open>
  The FNV-1a hash of 64 bits as published, following section 4.A of the specification:
  offset basis \<open>0xcbf29ce484222325\<close>, prime \<open>0x100000001b3\<close>, every byte an unsigned octet.
\<close>

definition fnv1a_64_standard :: "string \<Rightarrow> 64 word" where
  "fnv1a_64_standard data =
     fold (\<lambda>c hash. (hash XOR of_nat (of_char c)) * 0x100000001b3) data 0xcbf29ce484222325"

definition hex_digit :: "nat \<Rightarrow> char" where
  "hex_digit d = ''0123456789abcdef'' ! d"

text \<open>\<open>operator<<\<close> under \<open>std::hex\<close>: the digits of an unsigned value, without padding.\<close>

fun hex_of_nat :: "nat \<Rightarrow> string" where
  "hex_of_nat n =
     (if n < 16 then [hex_digit n] else hex_of_nat (n div 16) @ [hex_digit (n mod 16)])"

declare hex_of_nat.simps [simp del]

text \<open>\<open>std::setfill(c)\<close> and \<open>std::setw(w)\<close>: padding on the left up to the width.\<close>

definition setw_fill :: "nat \<Rightarrow> char \<Rightarrow> string \<Rightarrow> string" where
  "setw_fill w c s = replicate (w - length s) c @ s"

definition compute_hash :: "bool \<Rightarrow> string \<Rightarrow> string" where
  "compute_hash char_signed content =
     setw_fill 16 (CHR ''0'') (hex_of_nat (unat (fnv1a_hash char_signed content)))"

definition is_blank :: "char \<Rightarrow> bool" where
  "is_blank c = (c = CHR '' '' \<or> c = CHR 0x09 \<or> c = CHR 0x0D \<or> c = CHR 0x0A)"

definition compute_line_hash :: "bool \<Rightarrow> string \<Rightarrow> string" where
  "compute_line_hash char_signed line =
     (let start = length (takeWhile is_blank line) in
      if start = length line then ''empty''
      else
        let en = length line - 1 - length (takeWhile is_blank (rev line));
            trimmed = take (en - start + 1) (drop start line)
        in compute_hash char_signed trimmed)"

text \<open>
  \<open>split_lines\<close>: \<open>std::getline\<close> until it fails. A line ends at a newline or at the end of
  the input; at the end of the input an empty rest is no line.
\<close>

fun getline_loop :: "string \<Rightarrow> string \<Rightarrow> string list" where
  "getline_loop line [] = (if line = [] then [] else [line])"
| "getline_loop line (c # cs) =
     (if c = CHR 0x0A then line # getline_loop [] cs else getline_loop (line @ [c]) cs)"

definition split_lines :: "string \<Rightarrow> string list" where
  "split_lines content = getline_loop [] content"

fun join_lines :: "string list \<Rightarrow> string" where
  "join_lines [] = []"
| "join_lines [l] = l"
| "join_lines (l # ls) = l @ [CHR 0x0A] @ join_lines ls"

section \<open>Replacement policies (cpp\_cache/smart\_cache.cpp)\<close>

subsection \<open>LRUCache\<close>

text \<open>
  The C++ class keeps \<open>cache_\<close>, an unordered map from a key to the pair of its value and
  an iterator into \<open>usage_order_\<close>, and \<open>usage_order_\<close>, the list of keys with the most
  recently used key at the front. The iterator stored for a key always designates the node of
  that key, so erasing through it is modelled as removing the key from the list. The map is an
  association list with one pair per key; its order carries no meaning.

  \<open>usage_order_.back()\<close> on an empty list is undefined behaviour in C++; the model returns
  \<open>None\<close> there.
\<close>

record LRUCache =
  lru_max_size :: nat
  lru_cache :: "(string \<times> string) list"
  lru_usage_order :: "string list"

definition LRUCache_new :: "nat \<Rightarrow> LRUCache" where
  "LRUCache_new n = \<lparr>lru_max_size = n, lru_cache = [], lru_usage_order = []\<rparr>"

definition LRUCache_contains :: "LRUCache \<Rightarrow> string \<Rightarrow> bool" where
  "LRUCache_contains c key = (map_of (lru_cache c) key \<noteq> None)"

definition LRUCache_insert_new :: "LRUCache \<Rightarrow> string \<Rightarrow> string \<Rightarrow> LRUCache" where
  "LRUCache_insert_new c key val =
     c\<lparr>lru_usage_order := key # lru_usage_order c,
       lru_cache := AList.update key val (lru_cache c)\<rparr>"

definition LRUCache_put :: "LRUCache \<Rightarrow> string \<Rightarrow> string \<Rightarrow> (bool \<times> LRUCache) option" where
  "LRUCache_put c key val =
     (case map_of (lru_cache c) key of
        Some old \<Rightarrow>
          Some (True, c\<lparr>lru_cache := AList.update key val (lru_cache c),
                        lru_usage_order := key # remove1 key (lru_usage_order c)\<rparr>)
      | None \<Rightarrow>
          if length (lru_cache c) \<ge> lru_max_size c then
            (if lru_usage_order c = [] then None
             else
               let lru_key = last (lru_usage_order c);
                   c1 = c\<lparr>lru_usage_order := butlast (lru_usage_order c),
                          lru_cache := AList.delete lru_key (lru_cache c)\<rparr>
               in Some (True, LRUCache_insert_new c1 key val))
          else Some (True, LRUCache_insert_new c key val))"

definition LRUCache_get :: "LRUCache \<Rightarrow> string \<Rightarrow> string \<times> LRUCache" where
  "LRUCache_get c key =
     (case map_of (lru_cache c) key of
        None \<Rightarrow> ('''', c)
      | Some v \<Rightarrow> (v, c\<lparr>lru_usage_order := key # remove1 key (lru_usage_order c)\<rparr>))"

definition LRUCache_remove :: "LRUCache \<Rightarrow> string \<Rightarrow> bool \<times> LRUCache" where
  "LRUCache_remove c key =
     (case map_of (lru_cache c) key of
        None \<Rightarrow> (False, c)
      | Some v \<Rightarrow> (True, c\<lparr>lru_usage_order := remove1 key (lru_usage_order c),
                             lru_cache := AList.delete key (lru_cache c)\<rparr>))"

definition LRUCache_clear :: "LRUCache \<Rightarrow> LRUCache" where
  "LRUCache_clear c = c\<lparr>lru_cache := [], lru_usage_order := []\<rparr>"

definition LRUCache_size :: "LRUCache \<Rightarrow> nat" where
  "LRUCache_size c = length (lru_cache c)"

text \<open>Scenario S1: the four calls on a cache of capacity 2, then the three reads.\<close>

definition lru_S1 :: "LRUCache option" where
  "lru_S1 =
     (case LRUCache_put (LRUCache_new 2) ''a'' ''1'' of None \<Rightarrow> None
      | Some (r1, c1) \<Rightarrow>
     (case LRUCache_put c1 ''b'' ''2'' of None \<Rightarrow> None
      | Some (r2, c2) \<Rightarrow>
     (case LRUCache_put (snd (LRUCache_get c2 ''a'')) ''c'' ''3'' of None \<Rightarrow> None
      | Some (r3, c3) \<Rightarrow> Some c3)))"

definition lru_S1_reads :: "LRUCache \<Rightarrow> string \<times> string \<times> string" where
  "lru_S1_reads c =
     (let (va, ca) = LRUCache_get c ''a'';
          (vb, cb) = LRUCache_get ca ''b'';
          (vc, cc) = LRUCache_get cb ''c''
      in (va, vb, vc))"

subsection \<open>LFUCache\<close>

text \<open>
  \<open>cache_\<close> maps a key to its node (value, frequency and an iterator into the list of its
  frequency); \<open>freq_map_\<close> maps a frequency to the list of the keys that have it, the most
  recently touched first. \<open>freq_map_[f]\<close> creates an empty list where there is none, so the
  map is a total function with the empty list as default. The iterator of a node designates
  the node's key in the list of the node's frequency: erasing through it removes that key.
  \<open>back()\<close> on an empty list is undefined behaviour, \<open>None\<close> in the model.
\<close>

record LFUNode =
  node_value :: string
  node_frequency :: nat

record LFUCache =
  lfu_max_size :: nat
  lfu_cache :: "(string \<times> LFUNode) list"
  lfu_freq_map :: "nat \<Rightarrow> string list"
  lfu_min_frequency :: nat

definition LFUCache_new :: "nat \<Rightarrow> LFUCache" where
  "LFUCache_new n =
     \<lparr>lfu_max_size = n, lfu_cache = [], lfu_freq_map = (\<lambda>f. []), lfu_min_frequency = 0\<rparr>"

definition LFUCache_contains :: "LFUCache \<Rightarrow> string \<Rightarrow> bool" where
  "LFUCache_contains c key = (map_of (lfu_cache c) key \<noteq> None)"

text \<open>
  The part that \<open>put\<close> on a present key and \<open>get\<close> share: the key leaves the list of its
  old frequency, \<open>min_frequency_\<close> is incremented when that list is now empty and was the
  list of \<open>min_frequency_\<close>, and the key enters the list of the new frequency at the front.
\<close>

definition lfu_bump :: "LFUCache \<Rightarrow> string \<Rightarrow> LFUNode \<Rightarrow> LFUCache" where
  "lfu_bump c key node =
     (let old_freq = node_frequency node;
          new_freq = old_freq + 1;
          fm1 = (lfu_freq_map c)(old_freq := remove1 key (lfu_freq_map c old_freq));
          minf = (if fm1 old_freq = [] \<and> old_freq = lfu_min_frequency c
                  then lfu_min_frequency c + 1 else lfu_min_frequency c);
          fm2 = fm1(new_freq := key # fm1 new_freq)
      in c\<lparr>lfu_freq_map := fm2, lfu_min_frequency := minf,
            lfu_cache := AList.update key (node\<lparr>node_frequency := new_freq\<rparr>) (lfu_cache c)\<rparr>)"

definition lfu_insert_new :: "LFUCache \<Rightarrow> string \<Rightarrow> string \<Rightarrow> LFUCache" where
  "lfu_insert_new c key val =
     c\<lparr>lfu_min_frequency := 1,
       lfu_freq_map := (lfu_freq_map c)(1 := key # lfu_freq_map c 1),
       lfu_cache := AList.update key \<lparr>node_value = val, node_frequency = 1\<rparr> (lfu_cache c)\<rparr>"

definition LFUCache_put :: "LFUCache \<Rightarrow> string \<Rightarrow> string \<Rightarrow> (bool \<times> LFUCache) option" where
  "LFUCache_put c key val =
     (case map_of (lfu_cache c) key of
        Some node \<Rightarrow> Some (True, lfu_bump c key (node\<lparr>node_value := val\<rparr>))
      | None \<Rightarrow>
          if length (lfu_cache c) \<ge> lfu_max_size c then
            (if lfu_freq_map c (lfu_min_frequency c) = [] then None
             else
               let lfu_key = last (lfu_freq_map c (lfu_min_frequency c));
                   c1 = c\<lparr>lfu_freq_map := (lfu_freq_map c)
                            (lfu_min_frequency c := butlast (lfu_freq_map c (lfu_min_frequency c))),
                          lfu_cache := AList.delete lfu_key (lfu_cache c)\<rparr>
               in Some (True, lfu_insert_new c1 key val))
          else Some (True, lfu_insert_new c key val))"

definition LFUCache_get :: "LFUCache \<Rightarrow> string \<Rightarrow> string \<times> LFUCache" where
  "LFUCache_get c key =
     (case map_of (lfu_cache c) key of
        None \<Rightarrow> ('''', c)
      | Some node \<Rightarrow> (node_value node, lfu_bump c key node))"

definition LFUCache_remove :: "LFUCache \<Rightarrow> string \<Rightarrow> bool \<times> LFUCache" where
  "LFUCache_remove c key =
     (case map_of (lfu_cache c) key of
        None \<Rightarrow> (False, c)
      | Some node \<Rightarrow>
          (let freq = node_frequency node;
               fm1 = (lfu_freq_map c)(freq := remove1 key (lfu_freq_map c freq));
               minf = (if fm1 freq = [] \<and> freq = lfu_min_frequency c
                       then lfu_min_frequency c + 1 else lfu_min_frequency c)
           in (True, c\<lparr>lfu_freq_map := fm1, lfu_min_frequency := minf,
                        lfu_cache := AList.delete key (lfu_cache c)\<rparr>)))"

definition LFUCache_clear :: "LFUCache \<Rightarrow> LFUCache" where
  "LFUCache_clear c = c\<lparr>lfu_cache := [], lfu_freq_map := (\<lambda>f. []), lfu_min_frequency := 0\<rparr>"

definition LFUCache_size :: "LFUCache \<Rightarrow> nat" where
  "LFUCache_size c = length (lfu_cache c)"

text \<open>Sequences of calls; a sequence ends with \<open>None\<close> when a call has undefined behaviour.\<close>

datatype cache_op = Put string string | Get string | Remove string

fun LFUCache_step :: "LFUCache \<Rightarrow> cache_op \<Rightarrow> LFUCache option" where
  "LFUCache_step c (Put key val) = map_option snd (LFUCache_put c key val)"
| "LFUCache_step c (Get key) = Some (snd (LFUCache_get c key))"
| "LFUCache_step c (Remove key) = Some (snd (LFUCache_remove c key))"

fun LFUCache_run :: "LFUCache \<Rightarrow> cache_op list \<Rightarrow> LFUCache option" where
  "LFUCache_run c [] = Some c"
| "LFUCache_run c (x # xs) =
     (case LFUCache_step c x of None \<Rightarrow> None | Some c1 \<Rightarrow> LFUCache_run c1 xs)"

definition lfu_keys :: "LFUCache \<Rightarrow> string set" where
  "lfu_keys c = fst ` set (lfu_cache c)"

definition lfu_frequency :: "LFUCache \<Rightarrow> string \<Rightarrow> nat" where
  "lfu_frequency c key =
     (case map_of (lfu_cache c) key of None \<Rightarrow> 0 | Some node \<Rightarrow> node_frequency node)"

text \<open>The invariant of the reachable states that the eviction rests on.\<close>

definition lfu_inv :: "LFUCache \<Rightarrow> bool" where
  "lfu_inv c =
     (distinct (map fst (lfu_cache c))
      \<and> (\<forall>k n. map_of (lfu_cache c) k = Some n \<longrightarrow>
             k \<in> set (lfu_freq_map c (node_frequency n)) \<and> 1 \<le> node_frequency n)
      \<and> (\<forall>f k. k \<in> set (lfu_freq_map c f) \<longrightarrow>
             (\<exists>n. map_of (lfu_cache c) k = Some n \<and> node_frequency n = f))
      \<and> (\<forall>f. distinct (lfu_freq_map c f))
      \<and> length (lfu_cache c) \<le> lfu_max_size c
      \<and> (length (lfu_cache c) \<ge> lfu_max_size c \<and> lfu_cache c \<noteq> [] \<longrightarrow>
            lfu_freq_map c (lfu_min_frequency c) \<noteq> []
            \<and> (\<forall>k n. map_of (lfu_cache c) k = Some n \<longrightarrow>
                   lfu_min_frequency c \<le> node_frequency n)))"

subsection \<open>LFUCache: the structural part of the invariant, and an example\<close>

definition lfu_wf :: "LFUCache \<Rightarrow> bool" where
  "lfu_wf c =
     (distinct (map fst (lfu_cache c))
      \<and> (\<forall>k n. map_of (lfu_cache c) k = Some n \<longrightarrow>
             k \<in> set (lfu_freq_map c (node_frequency n)) \<and> 1 \<le> node_frequency n)
      \<and> (\<forall>f k. k \<in> set (lfu_freq_map c f) \<longrightarrow>
             (\<exists>n. map_of (lfu_cache c) k = Some n \<and> node_frequency n = f))
      \<and> (\<forall>f. distinct (lfu_freq_map c f)))"

text \<open>
  Capacity 2: put a, put b, get a. Then a has frequency 2 and b frequency 1, and putting a
  third key c evicts b.
\<close>

definition lfu_example_ops :: "cache_op list" where
  "lfu_example_ops = [Put ''a'' ''1'', Put ''b'' ''2'', Get ''a'']"

definition lfu_example_state :: LFUCache where
  "lfu_example_state =
     \<lparr>lfu_max_size = 2,
      lfu_cache = [(''a'', \<lparr>node_value = ''1'', node_frequency = 2\<rparr>),
                   (''b'', \<lparr>node_value = ''2'', node_frequency = 1\<rparr>)],
      lfu_freq_map = (\<lambda>f. [])(1 := [''b''], 2 := [''a'']),
      lfu_min_frequency = 1\<rparr>"

definition lfu_example_after :: LFUCache where
  "lfu_example_after =
     \<lparr>lfu_max_size = 2,
      lfu_cache = [(''a'', \<lparr>node_value = ''1'', node_frequency = 2\<rparr>),
                   (''c'', \<lparr>node_value = ''3'', node_frequency = 1\<rparr>)],
      lfu_freq_map = (\<lambda>f. [])(1 := [''c''], 2 := [''a'']),
      lfu_min_frequency = 1\<rparr>"

section \<open>BuildCache (cpp\_cache/smart\_cache.cpp)\<close>

text \<open>
  \<open>std::unique_ptr<BaseCache> cache_\<close> holds an LRUCache or an LFUCache. The two things
  outside the repository that the key depends on are parameters: \<open>hasher\<close>, the value of
  \<open>std::hash<std::string>\<close> (a \<open>size_t\<close>, left to the C++ implementation), and \<open>files\<close>,
  the content of each path that can be opened for reading.
\<close>

datatype BaseCache = LRU LRUCache | LFU LFUCache

fun BaseCache_put :: "BaseCache \<Rightarrow> string \<Rightarrow> string \<Rightarrow> (bool \<times> BaseCache) option" where
  "BaseCache_put (LRU c) key val = map_option (\<lambda>(r, c1). (r, LRU c1)) (LRUCache_put c key val)"
| "BaseCache_put (LFU c) key val = map_option (\<lambda>(r, c1). (r, LFU c1)) (LFUCache_put c key val)"

fun BaseCache_get :: "BaseCache \<Rightarrow> string \<Rightarrow> string \<times> BaseCache" where
  "BaseCache_get (LRU c) key = (let (v, c1) = LRUCache_get c key in (v, LRU c1))"
| "BaseCache_get (LFU c) key = (let (v, c1) = LFUCache_get c key in (v, LFU c1))"

record BuildCache =
  bc_cache :: BaseCache
  bc_cache_dir :: string

definition calculate_string_hash :: "(string \<Rightarrow> nat) \<Rightarrow> string \<Rightarrow> string" where
  "calculate_string_hash hasher input = hex_of_nat (hasher input)"

definition calculate_file_hash ::
  "(string \<Rightarrow> nat) \<Rightarrow> (string \<Rightarrow> string option) \<Rightarrow> string \<Rightarrow> string" where
  "calculate_file_hash hasher files path =
     (case files path of
        None \<Rightarrow> ''''
      | Some content \<Rightarrow> calculate_string_hash hasher content)"

definition calculate_command_hash :: "(string \<Rightarrow> nat) \<Rightarrow> string \<Rightarrow> string" where
  "calculate_command_hash hasher command = calculate_string_hash hasher command"

definition cache_build_result ::
  "(string \<Rightarrow> nat) \<Rightarrow> (string \<Rightarrow> string option) \<Rightarrow> BuildCache
     \<Rightarrow> string \<Rightarrow> string \<Rightarrow> string list \<Rightarrow> string \<Rightarrow> (bool \<times> BuildCache) option" where
  "cache_build_result hasher files bc target command deps result =
     (let key_stream0 = ''target='' @ target @ '';'';
          key_stream1 = key_stream0 @ ''command='' @ calculate_command_hash hasher command @ '';'';
          key_stream2 = fold (\<lambda>dep ks. ks @ ''dep='' @ dep @ '':''
                                      @ calculate_file_hash hasher files dep @ '';'')
                          deps key_stream1;
          cache_key = calculate_string_hash hasher key_stream2
      in map_option (\<lambda>(r, c). (r, bc\<lparr>bc_cache := c\<rparr>))
           (BaseCache_put (bc_cache bc) cache_key result))"

definition get_cached_build_result ::
  "(string \<Rightarrow> nat) \<Rightarrow> (string \<Rightarrow> string option) \<Rightarrow> BuildCache
     \<Rightarrow> string \<Rightarrow> string \<Rightarrow> string list \<Rightarrow> string \<times> BuildCache" where
  "get_cached_build_result hasher files bc target command deps =
     (let key_stream0 = ''target='' @ target @ '';'';
          key_stream1 = key_stream0 @ ''command='' @ calculate_command_hash hasher command @ '';'';
          key_stream2 = fold (\<lambda>dep ks. ks @ ''dep='' @ dep @ '':''
                                      @ calculate_file_hash hasher files dep @ '';'')
                          deps key_stream1;
          cache_key = calculate_string_hash hasher key_stream2;
          (v, c) = BaseCache_get (bc_cache bc) cache_key
      in (v, bc\<lparr>bc_cache := c\<rparr>))"

definition needs_rebuild ::
  "(string \<Rightarrow> nat) \<Rightarrow> (string \<Rightarrow> string option) \<Rightarrow> BuildCache
     \<Rightarrow> string \<Rightarrow> string \<Rightarrow> string list \<Rightarrow> bool \<times> BuildCache" where
  "needs_rebuild hasher files bc target command deps =
     (let (cached_result, bc1) = get_cached_build_result hasher files bc target command deps
      in (cached_result = [], bc1))"

text \<open>
  The key in the words of section 4.D of the specification, with the hash \<open>H\<close> a parameter:
  \<open>H\<close> of the string made of the target, \<open>H\<close> of the command, and for each dependency in the
  order supplied its path and \<open>H\<close> of its content, the empty string for a missing file.
\<close>

definition dep_component :: "(string \<Rightarrow> string) \<Rightarrow> (string \<Rightarrow> string option) \<Rightarrow> string \<Rightarrow> string" where
  "dep_component H files p =
     ''dep='' @ p @ '':'' @ (case files p of None \<Rightarrow> '''' | Some content \<Rightarrow> H content) @ '';''"

definition key_string ::
  "(string \<Rightarrow> string) \<Rightarrow> (string \<Rightarrow> string option) \<Rightarrow> string \<Rightarrow> string \<Rightarrow> string list \<Rightarrow> string" where
  "key_string H files target command deps =
     ''target='' @ target @ '';command='' @ H command @ '';''
       @ concat (map (dep_component H files) deps)"

definition build_cache_key ::
  "(string \<Rightarrow> string) \<Rightarrow> (string \<Rightarrow> string option) \<Rightarrow> string \<Rightarrow> string \<Rightarrow> string list \<Rightarrow> string" where
  "build_cache_key H files target command deps = H (key_string H files target command deps)"

text \<open>
  \<open>std::hash<std::string>\<close> as the Microsoft standard library for 64 bits defines it: the
  FNV-1a hash of 64 bits over the bytes (taken unsigned), the choice closest to section 4.A.
\<close>

definition fnv_hasher :: "string \<Rightarrow> nat" where
  "fnv_hasher s = unat (fnv1a_hash False s)"

definition BuildCache_new :: "string \<Rightarrow> nat \<Rightarrow> BuildCache" where
  "BuildCache_new dir n = \<lparr>bc_cache = LRU (LRUCache_new n), bc_cache_dir = dir\<rparr>"

section \<open>Incremental core (incremental/cpp/incremental\_core.cpp): data model\<close>

datatype UnitType = LINE | STATEMENT | FUNCTION | CLASS | MODULE | IMPORT | DECORATOR | BLOCK

datatype UnitState = UNKNOWN | UNCHANGED | MODIFIED | ADDED | DELETED | AFFECTED

text \<open>
  \<open>struct CompilationUnit\<close>. The fields \<open>id\<close>, \<open>type\<close>, \<open>name\<close> and \<open>state\<close> carry the
  prefix \<open>cu_\<close> or \<open>unit_\<close>, since a record field is a constant of the theory.
\<close>

record CompilationUnit =
  cu_id :: string
  file_path :: string
  start_line :: int
  end_line :: int
  cu_type :: UnitType
  cu_name :: string
  content_hash :: string
  dependencies :: "string list"
  dependents :: "string list"
  unit_state :: UnitState
  cached_output :: string
  cache_timestamp :: int
  cache_valid :: bool

record Snapshot =
  snap_file_path :: string
  snap_content_hash :: string
  line_hashes :: "string list"
  snap_units :: "(string \<times> CompilationUnit) list"
  snap_timestamp :: int

text \<open>
  \<open>struct ChangeRecord\<close> has no constructor: a line field that the code does not assign
  holds no determined value, which is \<open>None\<close> here.
\<close>

record ChangeRecord =
  unit_id :: string
  change_type :: UnitState
  old_start_line :: "int option"
  old_end_line :: "int option"
  new_start_line :: "int option"
  new_end_line :: "int option"
  reason :: string

section \<open>UnitManager\<close>

text \<open>
  \<open>units_\<close> and \<open>file_units_\<close> are unordered maps: association lists with one pair per
  key, read with \<open>map_of\<close> and written with \<open>AList.update\<close> and \<open>AList.delete\<close>.
  A \<open>CompilationUnit*\<close> returned by \<open>get_unit\<close> points into \<open>units_\<close>; a write through
  it is \<open>modify_unit\<close> at the unit's key.
\<close>

record UnitManager =
  um_units :: "(string \<times> CompilationUnit) list"
  um_file_units :: "(string \<times> string list) list"

definition UnitManager_new :: UnitManager where
  "UnitManager_new = \<lparr>um_units = [], um_file_units = []\<rparr>"

definition file_ids :: "UnitManager \<Rightarrow> string \<Rightarrow> string list" where
  "file_ids um fp = (case map_of (um_file_units um) fp of None \<Rightarrow> [] | Some ids \<Rightarrow> ids)"

definition add_unit :: "UnitManager \<Rightarrow> CompilationUnit \<Rightarrow> UnitManager" where
  "add_unit um unit =
     \<lparr>um_units = AList.update (cu_id unit) unit (um_units um),
      um_file_units =
        AList.update (file_path unit) (file_ids um (file_path unit) @ [cu_id unit])
          (um_file_units um)\<rparr>"

definition get_unit :: "UnitManager \<Rightarrow> string \<Rightarrow> CompilationUnit option" where
  "get_unit um i = map_of (um_units um) i"

definition modify_unit ::
  "UnitManager \<Rightarrow> string \<Rightarrow> (CompilationUnit \<Rightarrow> CompilationUnit) \<Rightarrow> UnitManager" where
  "modify_unit um i f =
     (case get_unit um i of
        None \<Rightarrow> um
      | Some u \<Rightarrow> um\<lparr>um_units := AList.update i (f u) (um_units um)\<rparr>)"

definition update_unit :: "UnitManager \<Rightarrow> string \<Rightarrow> CompilationUnit \<Rightarrow> UnitManager" where
  "update_unit um i unit =
     (if get_unit um i \<noteq> None then um\<lparr>um_units := AList.update i unit (um_units um)\<rparr>
      else um)"

definition remove_unit :: "UnitManager \<Rightarrow> string \<Rightarrow> UnitManager" where
  "remove_unit um i =
     (case get_unit um i of
        None \<Rightarrow> um
      | Some u \<Rightarrow>
          let um1 = um\<lparr>um_file_units :=
                      AList.update (file_path u) (removeAll i (file_ids um (file_path u)))
                        (um_file_units um)\<rparr>;
              um2 = fold (\<lambda>dep_id m.
                            modify_unit m dep_id
                              (\<lambda>d. d\<lparr>dependents := removeAll i (dependents d)\<rparr>))
                      (dependencies u) um1
          in um2\<lparr>um_units := AList.delete i (um_units um2)\<rparr>)"

text \<open>
  \<open>get_units_by_file\<close> returns pointers into \<open>units_\<close>. A pointer is the pair of the key
  it points at and the unit stored there when the call was made; reads of fields that no
  later write touches use the second component, and writes go through \<open>modify_unit\<close> at the
  first. \<open>std::sort\<close> with the comparison \<open>a->start_line < b->start_line\<close> leaves the order
  of units with equal \<open>start_line\<close> open, and the model keeps them in index order.
\<close>

definition get_units_by_file :: "UnitManager \<Rightarrow> string \<Rightarrow> (string \<times> CompilationUnit) list" where
  "get_units_by_file um fp =
     sort_key (\<lambda>p. start_line (snd p))
       (List.map_filter (\<lambda>i. map_option (Pair i) (get_unit um i)) (file_ids um fp))"

definition get_units_in_range ::
  "UnitManager \<Rightarrow> string \<Rightarrow> int \<Rightarrow> int \<Rightarrow> (string \<times> CompilationUnit) list" where
  "get_units_in_range um fp start en =
     filter (\<lambda>p. start_line (snd p) \<le> en \<and> end_line (snd p) \<ge> start)
       (get_units_by_file um fp)"

definition add_dependency :: "UnitManager \<Rightarrow> string \<Rightarrow> string \<Rightarrow> UnitManager" where
  "add_dependency um from_id to_id =
     (if get_unit um from_id \<noteq> None \<and> get_unit um to_id \<noteq> None then
        let um1 = modify_unit um from_id
                    (\<lambda>u. if to_id \<in> set (dependencies u) then u
                         else u\<lparr>dependencies := dependencies u @ [to_id]\<rparr>)
        in modify_unit um1 to_id
             (\<lambda>u. if from_id \<in> set (dependents u) then u
                  else u\<lparr>dependents := dependents u @ [from_id]\<rparr>)
      else um)"

definition remove_dependency :: "UnitManager \<Rightarrow> string \<Rightarrow> string \<Rightarrow> UnitManager" where
  "remove_dependency um from_id to_id =
     (let um1 = modify_unit um from_id
                  (\<lambda>u. u\<lparr>dependencies := removeAll to_id (dependencies u)\<rparr>)
      in modify_unit um1 to_id (\<lambda>u. u\<lparr>dependents := removeAll from_id (dependents u)\<rparr>))"

definition get_dependencies :: "UnitManager \<Rightarrow> string \<Rightarrow> string list" where
  "get_dependencies um i = (case get_unit um i of None \<Rightarrow> [] | Some u \<Rightarrow> dependencies u)"

definition get_dependents :: "UnitManager \<Rightarrow> string \<Rightarrow> string list" where
  "get_dependents um i = (case get_unit um i of None \<Rightarrow> [] | Some u \<Rightarrow> dependents u)"

text \<open>
  \<open>collect_affected_recursive\<close> calls itself once for each dependent, all calls sharing the
  visited set. \<open>collect_pending\<close> runs these calls from an explicit list of the ids whose
  call is still to come (the call stack, innermost first); the visited set is a list without
  repetition. Lemma \<open>collect_affected_recursive_unfold\<close> below recovers the equation that the
  C++ function is written with.
\<close>

function collect_pending :: "UnitManager \<Rightarrow> string list \<Rightarrow> string list \<Rightarrow> string list" where
  "collect_pending um [] visited = visited"
| "collect_pending um (i # pending) visited =
     (if i \<in> set visited then collect_pending um pending visited
      else (case get_unit um i of
              None \<Rightarrow> collect_pending um pending (i # visited)
            | Some u \<Rightarrow> collect_pending um (dependents u @ pending) (i # visited)))"
  by pat_completeness auto
termination
proof (relation "measures [\<lambda>(um, pending, visited). card (fst ` set (um_units um) - set visited),
                           \<lambda>(um, pending, visited). length pending]", goal_cases)
  case 1
  show ?case by simp
next
  case (2 um i pending visited)
  show ?case by simp
next
  case (3 um i pending visited)
  then have "i \<notin> fst ` set (um_units um)"
    by (simp add: get_unit_def map_of_eq_None_iff)
  then have "fst ` set (um_units um) - set (i # visited) = fst ` set (um_units um) - set visited"
    by auto
  then show ?case by simp
next
  case (4 um i pending visited u)
  then have "i \<in> fst ` set (um_units um)"
    by (metis get_unit_def map_of_eq_None_iff option.distinct(1))
  with 4 have "fst ` set (um_units um) - set (i # visited) \<subset> fst ` set (um_units um) - set visited"
    by auto
  then have "card (fst ` set (um_units um) - set (i # visited))
             < card (fst ` set (um_units um) - set visited)"
    by (intro psubset_card_mono) auto
  then show ?case by simp
qed

definition collect_affected_recursive ::
  "UnitManager \<Rightarrow> string \<Rightarrow> string list \<Rightarrow> string list" where
  "collect_affected_recursive um i visited = collect_pending um [i] visited"

definition get_affected_units :: "UnitManager \<Rightarrow> string \<Rightarrow> string list" where
  "get_affected_units um changed_id =
     removeAll changed_id (collect_affected_recursive um changed_id [])"

text \<open>The reverse edges of the graph: \<open>b\<close> is listed in the \<open>dependents\<close> of the stored unit \<open>a\<close>.\<close>

definition dependents_edges :: "UnitManager \<Rightarrow> (string \<times> string) set" where
  "dependents_edges um =
     {(a, b). \<exists>u. get_unit um a = Some u \<and> b \<in> set (dependents u)}"

subsection \<open>Example units and graphs\<close>

definition mk_unit ::
  "string \<Rightarrow> string \<Rightarrow> int \<Rightarrow> int \<Rightarrow> UnitType \<Rightarrow> string \<Rightarrow> CompilationUnit" where
  "mk_unit i fp s e t h =
     \<lparr>cu_id = i, file_path = fp, start_line = s, end_line = e, cu_type = t, cu_name = [],
      content_hash = h, dependencies = [], dependents = [], unit_state = UNKNOWN,
      cached_output = [], cache_timestamp = 0, cache_valid = False\<rparr>"

text \<open>Three units on a cycle of reverse edges: a to b to c to a.\<close>

definition cyc :: UnitManager where
  "cyc = add_dependency (add_dependency (add_dependency
           (add_unit (add_unit (add_unit UnitManager_new
              (mk_unit ''a'' ''f'' 1 1 LINE ''h1''))
              (mk_unit ''b'' ''f'' 2 2 LINE ''h2''))
              (mk_unit ''c'' ''f'' 3 3 LINE ''h3''))
           ''b'' ''a'') ''c'' ''b'') ''a'' ''c''"

text \<open>Unit a depends on unit b; then b is removed.\<close>

definition two_units :: UnitManager where
  "two_units = add_dependency
      (add_unit (add_unit UnitManager_new (mk_unit ''a'' ''f'' 1 1 LINE ''h1''))
         (mk_unit ''b'' ''f'' 2 2 LINE ''h2''))
      ''a'' ''b''"

text \<open>
  The edge symmetry of section 3 of the specification, over the stored units:
  \<open>x\<close> is in \<open>y.dependencies\<close> exactly when \<open>y\<close> is in \<open>x.dependents\<close>.
\<close>

definition edge_symmetric :: "UnitManager \<Rightarrow> bool" where
  "edge_symmetric um =
     (list_all (\<lambda>(y, uy). list_all (\<lambda>x. case get_unit um x of
                                            None \<Rightarrow> False
                                          | Some ux \<Rightarrow> y \<in> set (dependents ux))
                               (dependencies uy)) (um_units um)
      \<and> list_all (\<lambda>(x, ux). list_all (\<lambda>y. case get_unit um y of
                                            None \<Rightarrow> False
                                          | Some uy \<Rightarrow> x \<in> set (dependencies uy))
                               (dependents ux)) (um_units um))"

section \<open>ChangeDetector\<close>

text \<open>\<open>current_timestamp()\<close> reads the clock; the snapshot takes the value as \<open>now\<close>.\<close>

definition create_snapshot :: "bool \<Rightarrow> int \<Rightarrow> string \<Rightarrow> string \<Rightarrow> Snapshot" where
  "create_snapshot char_signed now fp content =
     \<lparr>snap_file_path = fp,
      snap_content_hash = compute_hash char_signed content,
      line_hashes = map (compute_line_hash char_signed) (split_lines content),
      snap_units = [],
      snap_timestamp = now\<rparr>"

text \<open>
  The table \<open>dp\<close> of \<open>compute_lcs\<close>, \<open>m + 1\<close> rows of \<open>n + 1\<close> zeros, filled by the two
  nested loops over \<open>i\<close> from 1 to \<open>m\<close> and \<open>j\<close> from 1 to \<open>n\<close>.
\<close>

definition lcs_cell :: "string list \<Rightarrow> string list \<Rightarrow> int list list \<Rightarrow> nat \<Rightarrow> nat \<Rightarrow> int" where
  "lcs_cell old_lines new_lines dp i j =
     (if old_lines ! (i - 1) = new_lines ! (j - 1) then dp ! (i - 1) ! (j - 1) + 1
      else max (dp ! (i - 1) ! j) (dp ! i ! (j - 1)))"

definition lcs_fill_row :: "string list \<Rightarrow> string list \<Rightarrow> nat \<Rightarrow> int list list \<Rightarrow> int list list" where
  "lcs_fill_row old_lines new_lines i dp =
     fold (\<lambda>j d. d[i := (d ! i)[j := lcs_cell old_lines new_lines d i j]])
       [1..<Suc (length new_lines)] dp"

definition lcs_table :: "string list \<Rightarrow> string list \<Rightarrow> int list list" where
  "lcs_table old_lines new_lines =
     fold (lcs_fill_row old_lines new_lines) [1..<Suc (length old_lines)]
       (replicate (Suc (length old_lines)) (replicate (Suc (length new_lines)) 0))"

text \<open>The backtrace loop \<open>while (i > 0 && j > 0)\<close>; \<open>lcs\<close> is the vector being pushed to.\<close>

function lcs_backtrace ::
  "string list \<Rightarrow> string list \<Rightarrow> int list list \<Rightarrow> nat \<Rightarrow> nat \<Rightarrow> (nat \<times> nat) list
     \<Rightarrow> (nat \<times> nat) list" where
  "lcs_backtrace old_lines new_lines dp i j lcs =
     (if i > 0 \<and> j > 0 then
        (if old_lines ! (i - 1) = new_lines ! (j - 1) then
           lcs_backtrace old_lines new_lines dp (i - 1) (j - 1) (lcs @ [(i - 1, j - 1)])
         else if dp ! (i - 1) ! j > dp ! i ! (j - 1) then
           lcs_backtrace old_lines new_lines dp (i - 1) j lcs
         else lcs_backtrace old_lines new_lines dp i (j - 1) lcs)
      else lcs)"
  by pat_completeness auto
termination
  by (relation "measure (\<lambda>(old_lines, new_lines, dp, i, j, lcs). i + j)") auto

declare lcs_backtrace.simps [simp del]

definition compute_lcs :: "string list \<Rightarrow> string list \<Rightarrow> (nat \<times> nat) list" where
  "compute_lcs old_lines new_lines =
     rev (lcs_backtrace old_lines new_lines (lcs_table old_lines new_lines)
            (length old_lines) (length new_lines) [])"

definition get_changed_lines :: "Snapshot \<Rightarrow> Snapshot \<Rightarrow> int list" where
  "get_changed_lines old_snap new_snap =
     (let new_size = length (line_hashes new_snap);
          lcs = compute_lcs (line_hashes old_snap) (line_hashes new_snap);
          lcs_new_lines = map snd lcs
      in map (\<lambda>i. int i + 1) (filter (\<lambda>i. i \<notin> set lcs_new_lines) [0..<new_size]))"

subsection \<open>The table of \<open>compute_lcs\<close>, specified\<close>

text \<open>
  \<open>lcs_len xs ys i j\<close> is the recurrence that the loops of \<open>compute_lcs\<close> tabulate, read
  as a function of the two prefix lengths; \<open>lcs_inv\<close> is the invariant of the loops: the
  cells before row \<open>i\<close>, and before column \<open>j\<close> in row \<open>i\<close>, hold the recurrence's values.
\<close>

fun lcs_len :: "string list \<Rightarrow> string list \<Rightarrow> nat \<Rightarrow> nat \<Rightarrow> nat" where
  "lcs_len xs ys 0 j = 0"
| "lcs_len xs ys (Suc i) 0 = 0"
| "lcs_len xs ys (Suc i) (Suc j) =
     (if xs ! i = ys ! j then lcs_len xs ys i j + 1
      else max (lcs_len xs ys i (Suc j)) (lcs_len xs ys (Suc i) j))"

definition lcs_inv :: "string list \<Rightarrow> string list \<Rightarrow> int list list \<Rightarrow> nat \<Rightarrow> nat \<Rightarrow> bool" where
  "lcs_inv xs ys dp i j =
     (length dp = Suc (length xs)
      \<and> (\<forall>a \<le> length xs. length (dp ! a) = Suc (length ys))
      \<and> (\<forall>a \<le> length xs. dp ! a ! 0 = 0)
      \<and> (\<forall>a b. a < i \<and> a \<le> length xs \<and> b \<le> length ys \<longrightarrow> dp ! a ! b = int (lcs_len xs ys a b))
      \<and> (\<forall>b. b < j \<and> b \<le> length ys \<and> i \<le> length xs \<longrightarrow> dp ! i ! b = int (lcs_len xs ys i b)))"


subsection \<open>Example contents\<close>

definition content_xyz :: string where
  "content_xyz = ''x'' @ [CHR 0x0A] @ ''y'' @ [CHR 0x0A] @ ''z''"

definition content_xYz :: string where
  "content_xYz = ''x'' @ [CHR 0x0A] @ ''Y'' @ [CHR 0x0A] @ ''z''"

definition content_x_yz :: string where
  "content_x_yz = ''x'' @ [CHR 0x0A] @ '' y'' @ [CHR 0x0A] @ ''z''"

section \<open>CompilationCache\<close>

record CacheEntry =
  ce_output :: string
  ce_content_hash :: string
  ce_timestamp :: int

text \<open>\<open>hits_\<close> and \<open>misses_\<close> are \<open>mutable\<close>: the \<open>const\<close> method \<open>get\<close> counts in them.\<close>

record CompilationCache =
  cc_cache :: "(string \<times> CacheEntry) list"
  cc_hits :: nat
  cc_misses :: nat

definition CompilationCache_has :: "CompilationCache \<Rightarrow> string \<Rightarrow> bool" where
  "CompilationCache_has c i = (map_of (cc_cache c) i \<noteq> None)"

definition CompilationCache_get :: "CompilationCache \<Rightarrow> string \<Rightarrow> string \<times> CompilationCache" where
  "CompilationCache_get c i =
     (case map_of (cc_cache c) i of
        Some e \<Rightarrow> (ce_output e, c\<lparr>cc_hits := cc_hits c + 1\<rparr>)
      | None \<Rightarrow> ('''', c\<lparr>cc_misses := cc_misses c + 1\<rparr>))"

definition CompilationCache_put ::
  "CompilationCache \<Rightarrow> int \<Rightarrow> string \<Rightarrow> string \<Rightarrow> string \<Rightarrow> CompilationCache" where
  "CompilationCache_put c now i output h =
     c\<lparr>cc_cache := AList.update i
          \<lparr>ce_output = output, ce_content_hash = h, ce_timestamp = now\<rparr> (cc_cache c)\<rparr>"

definition CompilationCache_invalidate :: "CompilationCache \<Rightarrow> string \<Rightarrow> CompilationCache" where
  "CompilationCache_invalidate c i = c\<lparr>cc_cache := AList.delete i (cc_cache c)\<rparr>"

definition is_valid :: "CompilationCache \<Rightarrow> string \<Rightarrow> string \<Rightarrow> bool" where
  "is_valid c i current_hash =
     (case map_of (cc_cache c) i of
        None \<Rightarrow> False
      | Some e \<Rightarrow> ce_content_hash e = current_hash)"

section \<open>IncrementalEngine\<close>

text \<open>
  The members \<open>units_\<close>, \<open>cache_\<close>, \<open>snapshots_\<close> and \<open>units_to_compile_\<close>; the detector
  has no state. A \<open>std::unordered_set\<close> of ids is a list without repetition in the order of
  insertion; C++ leaves the order of its iteration open.
\<close>

record IncrementalEngine =
  eng_units :: UnitManager
  eng_cache :: CompilationCache
  eng_snapshots :: "(string \<times> Snapshot) list"
  units_to_compile :: "string list"

definition set_insert :: "string \<Rightarrow> string list \<Rightarrow> string list" where
  "set_insert x xs = (if x \<in> set xs then xs else xs @ [x])"

definition set_of_vector :: "string list \<Rightarrow> string list" where
  "set_of_vector xs = fold set_insert xs []"

definition register_units ::
  "IncrementalEngine \<Rightarrow> string \<Rightarrow> CompilationUnit list \<Rightarrow> IncrementalEngine" where
  "register_units eng fp units =
     (let old_units = get_units_by_file (eng_units eng) fp;
          um1 = fold (\<lambda>old_unit m. remove_unit m (cu_id (snd old_unit))) old_units (eng_units eng)
      in eng\<lparr>eng_units := fold (\<lambda>unit m. add_unit m unit) units um1\<rparr>)"

definition is_structure :: "UnitType \<Rightarrow> bool" where
  "is_structure t = (t = FUNCTION \<or> t = CLASS)"

definition mark_affected :: "CompilationUnit \<Rightarrow> CompilationUnit" where
  "mark_affected u = u\<lparr>unit_state := AFFECTED, cache_valid := False\<rparr>"

definition mark_modified :: "CompilationUnit \<Rightarrow> CompilationUnit" where
  "mark_modified u = u\<lparr>unit_state := MODIFIED, cache_valid := False\<rparr>"

text \<open>
  \<open>expand_to_boundaries\<close>, inner loop: the units \<open>parent\<close> of the file, for the affected
  unit \<open>unit\<close> with id \<open>i\<close>.
\<close>

fun expand_parents ::
  "string \<Rightarrow> CompilationUnit \<Rightarrow> (string \<times> CompilationUnit) list
     \<Rightarrow> UnitManager \<times> string list \<Rightarrow> UnitManager \<times> string list" where
  "expand_parents i unit [] (um, expanded) = (um, expanded)"
| "expand_parents i unit ((k, parent) # rest) (um, expanded) =
     (if cu_id parent = i then expand_parents i unit rest (um, expanded)
      else if start_line parent \<le> start_line unit \<and> end_line parent \<ge> end_line unit
              \<and> is_structure (cu_type parent) then
        expand_parents i unit rest
          (modify_unit um k mark_affected, set_insert (cu_id parent) expanded)
      else expand_parents i unit rest (um, expanded))"

text \<open>The outer loop over \<open>unit_ids\<close>.\<close>

fun expand_ids ::
  "string \<Rightarrow> string list \<Rightarrow> UnitManager \<times> string list \<Rightarrow> UnitManager \<times> string list" where
  "expand_ids fp [] (um, expanded) = (um, expanded)"
| "expand_ids fp (i # ids) (um, expanded) =
     (case get_unit um i of
        None \<Rightarrow> expand_ids fp ids (um, expanded)
      | Some unit \<Rightarrow>
          if is_structure (cu_type unit) then expand_ids fp ids (um, expanded)
          else expand_ids fp ids
                 (expand_parents i unit (get_units_by_file um fp) (um, expanded)))"

definition expand_to_boundaries ::
  "UnitManager \<Rightarrow> string \<Rightarrow> string list \<Rightarrow> UnitManager \<times> string list" where
  "expand_to_boundaries um fp unit_ids = expand_ids fp unit_ids (um, set_of_vector unit_ids)"

text \<open>
  \<open>update_source\<close> with an old snapshot: the loop over the changed lines, the loop over the
  units of each line, and the loop over the transitively affected dependents of each unit.
\<close>

fun mark_dependents :: "string list \<Rightarrow> UnitManager \<times> string list \<Rightarrow> UnitManager \<times> string list" where
  "mark_dependents [] (um, affected_ids) = (um, affected_ids)"
| "mark_dependents (dep_id # ds) (um, affected_ids) =
     mark_dependents ds (modify_unit um dep_id mark_affected, set_insert dep_id affected_ids)"

fun mark_units ::
  "(string \<times> CompilationUnit) list \<Rightarrow> UnitManager \<times> string list \<Rightarrow> UnitManager \<times> string list" where
  "mark_units [] (um, affected_ids) = (um, affected_ids)"
| "mark_units ((k, unit) # rest) (um, affected_ids) =
     (let um1 = modify_unit um k mark_modified;
          dependents = get_affected_units um1 (cu_id unit)
      in mark_units rest (mark_dependents dependents (um1, set_insert (cu_id unit) affected_ids)))"

fun mark_lines ::
  "string \<Rightarrow> int list \<Rightarrow> UnitManager \<times> string list \<Rightarrow> UnitManager \<times> string list" where
  "mark_lines fp [] (um, affected_ids) = (um, affected_ids)"
| "mark_lines fp (line # ls) (um, affected_ids) =
     mark_lines fp ls (mark_units (get_units_in_range um fp line line) (um, affected_ids))"

definition change_records :: "UnitManager \<Rightarrow> string list \<Rightarrow> ChangeRecord list" where
  "change_records um ids =
     List.map_filter
       (\<lambda>i. map_option
               (\<lambda>unit. \<lparr>unit_id = i, change_type = unit_state unit,
                         old_start_line = None, old_end_line = None,
                         new_start_line = Some (start_line unit),
                         new_end_line = Some (end_line unit), reason = []\<rparr>)
               (get_unit um i))
       ids"

definition added_record :: "CompilationUnit \<Rightarrow> ChangeRecord" where
  "added_record unit =
     \<lparr>unit_id = cu_id unit, change_type = ADDED, old_start_line = None, old_end_line = None,
      new_start_line = Some (start_line unit), new_end_line = Some (end_line unit),
      reason = []\<rparr>"

definition install_snapshot ::
  "IncrementalEngine \<Rightarrow> string \<Rightarrow> Snapshot \<Rightarrow> IncrementalEngine" where
  "install_snapshot eng fp new_snap =
     (let units = fold (\<lambda>p m. AList.update (cu_id (snd p)) (snd p) m)
                    (get_units_by_file (eng_units eng) fp) []
      in eng\<lparr>eng_snapshots := AList.update fp (new_snap\<lparr>snap_units := units\<rparr>)
                                 (eng_snapshots eng)\<rparr>)"

definition update_source ::
  "bool \<Rightarrow> int \<Rightarrow> IncrementalEngine \<Rightarrow> string \<Rightarrow> string
     \<Rightarrow> ChangeRecord list \<times> IncrementalEngine" where
  "update_source char_signed now eng fp new_content =
     (let new_snap = create_snapshot char_signed now fp new_content in
      case map_of (eng_snapshots eng) fp of
        Some old_snap \<Rightarrow>
          let changed_lines = get_changed_lines old_snap new_snap;
              (um1, affected_ids) = mark_lines fp changed_lines (eng_units eng, []);
              (um2, ids_to_expand) = expand_to_boundaries um1 fp affected_ids;
              affected_ids2 = set_of_vector ids_to_expand;
              changes = change_records um2 affected_ids2;
              eng1 = eng\<lparr>eng_units := um2, units_to_compile := [] @ affected_ids2\<rparr>
          in (changes, install_snapshot eng1 fp new_snap)
      | None \<Rightarrow>
          let units = get_units_by_file (eng_units eng) fp;
              um1 = fold (\<lambda>p m. modify_unit m (fst p) (\<lambda>u. u\<lparr>unit_state := ADDED\<rparr>))
                      units (eng_units eng);
              eng1 = eng\<lparr>eng_units := um1,
                         units_to_compile :=
                           units_to_compile eng @ map (\<lambda>p. cu_id (snd p)) units\<rparr>
          in (map (\<lambda>p. added_record (snd p)) units, install_snapshot eng1 fp new_snap))"

definition get_units_to_compile :: "IncrementalEngine \<Rightarrow> string list" where
  "get_units_to_compile eng = units_to_compile eng"

definition mark_compiled ::
  "int \<Rightarrow> IncrementalEngine \<Rightarrow> string \<Rightarrow> string \<Rightarrow> IncrementalEngine" where
  "mark_compiled now eng i output =
     (let eng1 =
            (case get_unit (eng_units eng) i of
               None \<Rightarrow> eng
             | Some unit \<Rightarrow>
                 eng\<lparr>eng_units := modify_unit (eng_units eng) i
                        (\<lambda>u. u\<lparr>cached_output := output, cache_timestamp := now,
                                cache_valid := True, unit_state := UNCHANGED\<rparr>),
                      eng_cache := CompilationCache_put (eng_cache eng) now i output
                                     (content_hash unit)\<rparr>)
      in eng1\<lparr>units_to_compile := removeAll i (units_to_compile eng1)\<rparr>)"

text \<open>
  \<open>get_combined_output\<close>: the loop over the sorted units with the index \<open>i\<close>; \<open>oss\<close> is the
  output stream, and the cache is threaded through for its counters.
\<close>

fun combine_units ::
  "nat \<Rightarrow> (string \<times> CompilationUnit) list \<Rightarrow> string \<times> CompilationCache
     \<Rightarrow> string \<times> CompilationCache" where
  "combine_units i [] (oss, cache) = (oss, cache)"
| "combine_units i ((k, unit) # rest) (oss, cache) =
     (let (output, cache1) =
            (if cache_valid unit then (cached_output unit, cache)
             else if is_valid cache (cu_id unit) (content_hash unit)
               then CompilationCache_get cache (cu_id unit)
             else ('''', cache));
          oss1 = (if output \<noteq> [] then (if i > 0 then oss @ [CHR 0x0A] else oss) @ output
                  else oss)
      in combine_units (Suc i) rest (oss1, cache1))"

definition get_combined_output :: "IncrementalEngine \<Rightarrow> string \<Rightarrow> string \<times> IncrementalEngine" where
  "get_combined_output eng fp =
     (let units = sort_key (\<lambda>p. start_line (snd p)) (get_units_by_file (eng_units eng) fp);
          (out, cache1) = combine_units 0 units ('''', eng_cache eng)
      in (out, eng\<lparr>eng_cache := cache1\<rparr>))"

section \<open>Engine examples and specification-side definitions\<close>

definition IncrementalEngine_new :: IncrementalEngine where
  "IncrementalEngine_new =
     \<lparr>eng_units = UnitManager_new,
      eng_cache = \<lparr>cc_cache = [], cc_hits = 0, cc_misses = 0\<rparr>,
      eng_snapshots = [], units_to_compile = []\<rparr>"

text \<open>Two one-line units of file f; only the second was compiled, with output B.\<close>

definition eng_two_lines :: IncrementalEngine where
  "eng_two_lines =
     mark_compiled 0
       (register_units IncrementalEngine_new ''f''
          [mk_unit ''u1'' ''f'' 1 1 LINE ''h1'', mk_unit ''u2'' ''f'' 2 2 LINE ''h2''])
       ''u2'' ''B''"

text \<open>
  The output of \<open>get_combined_output\<close> in the words of section 4.H of the specification:
  the fragment of each unit in the order of \<open>start_line\<close>, the non-empty fragments joined
  with a single newline between them.
\<close>

definition unit_fragment :: "CompilationCache \<Rightarrow> CompilationUnit \<Rightarrow> string" where
  "unit_fragment cache unit =
     (if cache_valid unit then cached_output unit
      else if is_valid cache (cu_id unit) (content_hash unit)
        then fst (CompilationCache_get cache (cu_id unit))
      else '''')"

definition combined_output_spec :: "IncrementalEngine \<Rightarrow> string \<Rightarrow> string" where
  "combined_output_spec eng fp =
     join_lines (filter (\<lambda>s. s \<noteq> [])
       (map (\<lambda>p. unit_fragment (eng_cache eng) (snd p))
          (sort_key (\<lambda>p. start_line (snd p)) (get_units_by_file (eng_units eng) fp))))"

text \<open>
  Files g (one unit) and f (two units): \<open>eng_one_file\<close> after the first \<open>update_source\<close> of
  g, \<open>eng_two_files\<close> after the first \<open>update_source\<close> of f as well.
\<close>

definition eng_two_files :: IncrementalEngine where
  "eng_two_files =
     (let e0 = register_units
                 (register_units IncrementalEngine_new ''g'' [mk_unit ''g1'' ''g'' 1 1 LINE ''hg''])
                 ''f'' [mk_unit ''f1'' ''f'' 1 1 LINE ''h1'', mk_unit ''f2'' ''f'' 2 2 LINE ''h2''];
          e1 = snd (update_source True 0 e0 ''g'' ''a'')
      in snd (update_source True 0 e1 ''f'' content_xyz))"

definition eng_one_file :: IncrementalEngine where
  "eng_one_file =
     snd (update_source True 0
       (register_units
          (register_units IncrementalEngine_new ''g'' [mk_unit ''g1'' ''g'' 1 1 LINE ''hg''])
          ''f'' [mk_unit ''f1'' ''f'' 1 1 LINE ''h1'', mk_unit ''f2'' ''f'' 2 2 LINE ''h2''])
       ''g'' ''a'')"

text \<open>
  As \<open>eng_two_files\<close>, with unit g1 of file g depending on unit f2 of file f: the edge is
  added through \<open>units()\<close> before the first updates.
\<close>

definition eng_dependent :: IncrementalEngine where
  "eng_dependent =
     (let e0 = register_units
                 (register_units IncrementalEngine_new ''g'' [mk_unit ''g1'' ''g'' 1 1 LINE ''hg''])
                 ''f'' [mk_unit ''f1'' ''f'' 1 1 LINE ''h1'', mk_unit ''f2'' ''f'' 2 2 LINE ''h2''];
          e1 = e0\<lparr>eng_units := add_dependency (eng_units e0) ''g1'' ''f2''\<rparr>;
          e2 = snd (update_source True 0 e1 ''g'' ''a'')
      in snd (update_source True 0 e2 ''f'' content_xyz))"

section \<open>Boundary expansion, specified\<close>

text \<open>
  What \<open>expand_to_boundaries\<close> tests for an affected unit \<open>unit\<close> with id \<open>i\<close> and a unit
  \<open>parent\<close> of the file: another id, a line range that covers the range of \<open>unit\<close> (equal
  bounds included), and the type Function or Class.
\<close>

definition is_container :: "string \<Rightarrow> CompilationUnit \<Rightarrow> CompilationUnit \<Rightarrow> bool" where
  "is_container i unit parent =
     (cu_id parent \<noteq> i \<and> start_line parent \<le> start_line unit
      \<and> end_line parent \<ge> end_line unit \<and> is_structure (cu_type parent))"

text \<open>Strict containment of line ranges, as the claim words it: covering and not equal.\<close>

definition strictly_contains :: "CompilationUnit \<Rightarrow> CompilationUnit \<Rightarrow> bool" where
  "strictly_contains parent unit =
     (start_line parent \<le> start_line unit \<and> end_line unit \<le> end_line parent
      \<and> (start_line parent < start_line unit \<or> end_line unit < end_line parent))"

text \<open>The keys and the ids of the containers of one affected unit, and of a list of ids.\<close>

definition parent_keys :: "UnitManager \<Rightarrow> string \<Rightarrow> string \<Rightarrow> CompilationUnit \<Rightarrow> string list" where
  "parent_keys um fp i unit =
     map fst (filter (\<lambda>p. is_container i unit (snd p)) (get_units_by_file um fp))"

definition parent_ids :: "UnitManager \<Rightarrow> string \<Rightarrow> string \<Rightarrow> CompilationUnit \<Rightarrow> string list" where
  "parent_ids um fp i unit =
     map (\<lambda>p. cu_id (snd p)) (filter (\<lambda>p. is_container i unit (snd p)) (get_units_by_file um fp))"

definition all_parent_keys :: "UnitManager \<Rightarrow> string \<Rightarrow> string list \<Rightarrow> string list" where
  "all_parent_keys um fp ids =
     concat (map (\<lambda>i. case get_unit um i of
                          None \<Rightarrow> []
                        | Some unit \<Rightarrow> if is_structure (cu_type unit) then []
                                       else parent_keys um fp i unit) ids)"

definition all_parent_ids :: "UnitManager \<Rightarrow> string \<Rightarrow> string list \<Rightarrow> string list" where
  "all_parent_ids um fp ids =
     concat (map (\<lambda>i. case get_unit um i of
                          None \<Rightarrow> []
                        | Some unit \<Rightarrow> if is_structure (cu_type unit) then []
                                       else parent_ids um fp i unit) ids)"

text \<open>A unit without the two fields that the expansion writes.\<close>

definition core :: "CompilationUnit \<Rightarrow> CompilationUnit" where
  "core u = u\<lparr>unit_state := UNKNOWN, cache_valid := False\<rparr>"

definition same_core :: "UnitManager \<Rightarrow> UnitManager \<Rightarrow> bool" where
  "same_core um1 um2 =
     (um_file_units um1 = um_file_units um2
      \<and> (\<forall>k. map_option core (get_unit um1 k) = map_option core (get_unit um2 k)))"

text \<open>A statement and a function on the same two lines, and a class around both.\<close>

definition um_same_range :: UnitManager where
  "um_same_range =
     add_unit (add_unit (add_unit UnitManager_new
       (mk_unit ''S'' ''f'' 15 16 STATEMENT ''h1''))
       (mk_unit ''F'' ''f'' 15 16 FUNCTION ''h2''))
       (mk_unit ''G'' ''f'' 10 30 CLASS ''h3'')"

text \<open>
  Two files: the statement g1 and the class G around it in file g, and a function F of file
  f on the line numbers of G.
\<close>

definition um_two_files :: UnitManager where
  "um_two_files =
     add_unit (add_unit (add_unit UnitManager_new
       (mk_unit ''g1'' ''g'' 6 7 STATEMENT ''h1''))
       (mk_unit ''G'' ''g'' 5 9 CLASS ''h2''))
       (mk_unit ''F'' ''f'' 5 9 FUNCTION ''h3'')"

text \<open>
  The file index agrees with the units: every unit is stored under its own id, and the ids
  listed under a file are those of the stored units whose \<open>file_path\<close> is that file. This
  holds of the empty manager and is kept by \<open>add_unit\<close> of a unit with a new id and by the
  writes of \<open>update_source\<close>.
\<close>

definition um_indexed :: "UnitManager \<Rightarrow> bool" where
  "um_indexed um =
     ((\<forall>k u. get_unit um k = Some u \<longrightarrow> cu_id u = k)
      \<and> (\<forall>fp k. k \<in> set (file_ids um fp)
                 \<longleftrightarrow> (\<exists>u. get_unit um k = Some u \<and> file_path u = fp)))"

section \<open>The list of units to compile, specified\<close>

text \<open>
  The ids of the units of the file that a changed line falls into, the ids reachable from a
  set of ids along \<open>dependents\<close> edges (the set itself included), and the ids of the
  Function and Class units listed under the file.
\<close>

definition changed_unit_ids :: "UnitManager \<Rightarrow> string \<Rightarrow> int list \<Rightarrow> string set" where
  "changed_unit_ids um fp lines =
     {cu_id unit | k unit line.
        line \<in> set lines \<and> (k, unit) \<in> set (get_units_by_file um fp)
        \<and> start_line unit \<le> line \<and> line \<le> end_line unit}"

definition dependents_closure :: "UnitManager \<Rightarrow> string set \<Rightarrow> string set" where
  "dependents_closure um S = (dependents_edges um)\<^sup>* `` S"

definition file_structure_ids :: "UnitManager \<Rightarrow> string \<Rightarrow> string set" where
  "file_structure_ids um fp =
     {cu_id parent | k parent.
        (k, parent) \<in> set (get_units_by_file um fp) \<and> is_structure (cu_type parent)}"

section \<open>LRUCache: runs of operations and the representation invariant\<close>

text \<open>
  A run of \<open>put\<close>, \<open>get\<close> and \<open>remove\<close> calls on one cache; \<open>None\<close> when a call
  reads \<open>back()\<close> of an empty usage list. The invariant ties the usage list to the keys
  of the map and bounds the size by the capacity.
\<close>


fun LRUCache_step :: "LRUCache \<Rightarrow> cache_op \<Rightarrow> LRUCache option" where
  "LRUCache_step c (Put key val) = map_option snd (LRUCache_put c key val)"
| "LRUCache_step c (Get key) = Some (snd (LRUCache_get c key))"
| "LRUCache_step c (Remove key) = Some (snd (LRUCache_remove c key))"

fun LRUCache_run :: "LRUCache \<Rightarrow> cache_op list \<Rightarrow> LRUCache option" where
  "LRUCache_run c [] = Some c"
| "LRUCache_run c (x # xs) =
     (case LRUCache_step c x of None \<Rightarrow> None | Some c1 \<Rightarrow> LRUCache_run c1 xs)"

definition lru_inv :: "LRUCache \<Rightarrow> bool" where
  "lru_inv c =
     (distinct (map fst (lru_cache c)) \<and> distinct (lru_usage_order c)
      \<and> set (lru_usage_order c) = fst ` set (lru_cache c)
      \<and> length (lru_cache c) \<le> lru_max_size c)"

section \<open>Theorems\<close>

text \<open>
  C9. On an LRUCache of capacity 2, after put("a","1"); put("b","2"); get("a"); put("c","3"),
  the calls get("a"), get("b"), get("c") return "1", "" and "3": the key "b" was evicted as
  the least recently used one. None of the calls reaches undefined behaviour.
\<close>

theorem C9_lru_eviction_order:
  "\<exists>c. lru_S1 = Some c \<and> lru_S1_reads c = (''1'', '''', ''3'')
       \<and> fst (LRUCache_get c ''a'') = ''1''
       \<and> fst (LRUCache_get c ''b'') = ''''
       \<and> fst (LRUCache_get c ''c'') = ''3''"
  by (simp add: lru_S1_def lru_S1_reads_def LRUCache_put_def LRUCache_get_def
      LRUCache_new_def LRUCache_insert_new_def AList.delete_eq)

subsection \<open>LFUCache: eviction takes a key of minimum frequency\<close>

lemma alist_length_update_new:
  "map_of al k = None \<Longrightarrow> length (AList.update k v al) = Suc (length al)"
proof -
  assume "map_of al k = None"
  then have "k \<notin> set (map fst al)" by (simp add: map_of_eq_None_iff)
  then have "length (map fst (AList.update k v al)) = Suc (length (map fst al))"
    by (simp add: update_keys)
  then show ?thesis by simp
qed

lemma alist_length_update_old:
  "map_of al k = Some w \<Longrightarrow> length (AList.update k v al) = length al"
proof -
  assume "map_of al k = Some w"
  then have "k \<in> set (map fst al)" by (metis map_of_eq_None_iff option.distinct(1) set_map)
  then have "length (map fst (AList.update k v al)) = length (map fst al)"
    by (simp add: update_keys)
  then show ?thesis by simp
qed

lemma alist_length_delete:
  assumes "distinct (map fst al)" "map_of al k = Some w"
  shows "Suc (length (AList.delete k al)) = length al"
proof -
  have in_keys: "k \<in> set (map fst al)"
    using assms(2) by (metis map_of_eq_None_iff option.distinct(1) set_map)
  have "length (map fst (AList.delete k al)) = length (removeAll k (map fst al))"
    by (simp add: delete_keys)
  also have "\<dots> = length (remove1 k (map fst al))"
    using assms(1) by (simp add: distinct_remove1_removeAll)
  also have "\<dots> = length (map fst al) - 1"
    using in_keys by (simp add: length_remove1)
  finally show ?thesis using in_keys by (cases al) auto
qed

lemma lfu_inv_new: "lfu_inv (LFUCache_new n)"
  by (simp add: lfu_inv_def LFUCache_new_def)

lemma lfu_inv_bump:
  assumes inv: "lfu_inv c" and node: "map_of (lfu_cache c) key = Some node0"
      and fr: "node_frequency node = node_frequency node0"
  shows "lfu_inv (lfu_bump c key node)"
proof -
  let ?f = "node_frequency node0"
  let ?c' = "lfu_bump c key node"
  have d: "distinct (map fst (lfu_cache c))"
    and i2: "\<And>k n. map_of (lfu_cache c) k = Some n \<Longrightarrow>
               k \<in> set (lfu_freq_map c (node_frequency n)) \<and> 1 \<le> node_frequency n"
    and i3: "\<And>f k. k \<in> set (lfu_freq_map c f) \<Longrightarrow>
               \<exists>n. map_of (lfu_cache c) k = Some n \<and> node_frequency n = f"
    and i4: "\<And>f. distinct (lfu_freq_map c f)"
    and i5: "length (lfu_cache c) \<le> lfu_max_size c"
    and i6: "length (lfu_cache c) \<ge> lfu_max_size c \<and> lfu_cache c \<noteq> [] \<Longrightarrow>
            lfu_freq_map c (lfu_min_frequency c) \<noteq> []
            \<and> (\<forall>k n. map_of (lfu_cache c) k = Some n \<longrightarrow> lfu_min_frequency c \<le> node_frequency n)"
    using inv unfolding lfu_inv_def by blast+
  have cache': "lfu_cache ?c' = AList.update key (node\<lparr>node_frequency := Suc ?f\<rparr>) (lfu_cache c)"
    by (simp add: lfu_bump_def Let_def fr)
  have fm': "lfu_freq_map ?c' = (\<lambda>g. if g = Suc ?f then key # lfu_freq_map c (Suc ?f)
                                 else if g = ?f then remove1 key (lfu_freq_map c ?f)
                                 else lfu_freq_map c g)"
    by (auto simp: lfu_bump_def Let_def fr fun_eq_iff)
  have min': "lfu_min_frequency ?c' = (if remove1 key (lfu_freq_map c ?f) = [] \<and> ?f = lfu_min_frequency c
                                   then Suc (lfu_min_frequency c) else lfu_min_frequency c)"
    by (auto simp: lfu_bump_def Let_def fr)
  have max': "lfu_max_size ?c' = lfu_max_size c"
    by (simp add: lfu_bump_def Let_def)
  have look: "\<And>k. map_of (lfu_cache ?c') k
               = (if k = key then Some (node\<lparr>node_frequency := Suc ?f\<rparr>) else map_of (lfu_cache c) k)"
    by (simp add: cache' update_conv')
  have len: "length (lfu_cache ?c') = length (lfu_cache c)"
    unfolding cache' using node by (rule alist_length_update_old)
  have key_notin_next: "key \<notin> set (lfu_freq_map c (Suc ?f))"
    using i3 [of key "Suc ?f"] node by auto
  have c1: "distinct (map fst (lfu_cache ?c'))"
    unfolding cache' using d by (rule distinct_update)
  have c2: "k \<in> set (lfu_freq_map ?c' (node_frequency n)) \<and> 1 \<le> node_frequency n"
    if "map_of (lfu_cache ?c') k = Some n" for k n
  proof (cases "k = key")
    case True
    then show ?thesis using that by (auto simp: look fm')
  next
    case False
    then have "map_of (lfu_cache c) k = Some n" using that by (simp add: look)
    from i2 [OF this] False show ?thesis by (auto simp: fm')
  qed
  have c3: "\<exists>n. map_of (lfu_cache ?c') k = Some n \<and> node_frequency n = f"
    if "k \<in> set (lfu_freq_map ?c' f)" for f k
  proof (cases "k = key")
    case True
    have "f = Suc ?f"
    proof (rule ccontr)
      assume ne: "f \<noteq> Suc ?f"
      show False
      proof (cases "f = ?f")
        case True
        then have "key \<in> set (remove1 key (lfu_freq_map c ?f))"
          using that \<open>k = key\<close> by (simp add: fm')
        then show False using i4 [of ?f] by simp
      next
        case False
        then have "key \<in> set (lfu_freq_map c f)" using that \<open>k = key\<close> ne by (simp add: fm')
        from i3 [OF this] node False show False by simp
      qed
    qed
    then show ?thesis using True by (simp add: look)
  next
    case False
    have "k \<in> set (lfu_freq_map c f)"
      using that False by (auto simp: fm' split: if_splits dest: notin_set_remove1)
    from i3 [OF this] False show ?thesis by (simp add: look)
  qed
  have c4: "distinct (lfu_freq_map ?c' f)" for f
    using i4 key_notin_next by (simp add: fm')
  have c5: "length (lfu_cache ?c') \<le> lfu_max_size ?c'"
    using i5 len max' by simp
  have c6: "lfu_freq_map ?c' (lfu_min_frequency ?c') \<noteq> []
            \<and> (\<forall>k n. map_of (lfu_cache ?c') k = Some n \<longrightarrow> lfu_min_frequency ?c' \<le> node_frequency n)"
    if full: "length (lfu_cache ?c') \<ge> lfu_max_size ?c' \<and> lfu_cache ?c' \<noteq> []"
  proof -
    have ne: "lfu_cache c \<noteq> []" using node by auto
    have old: "lfu_freq_map c (lfu_min_frequency c) \<noteq> []"
      "\<And>k n. map_of (lfu_cache c) k = Some n \<Longrightarrow> lfu_min_frequency c \<le> node_frequency n"
      using i6 full ne len max' by auto
    show ?thesis
    proof (cases "remove1 key (lfu_freq_map c ?f) = [] \<and> ?f = lfu_min_frequency c")
      case True
      then have m: "lfu_min_frequency ?c' = Suc ?f" by (auto simp: min')
      have a: "lfu_freq_map ?c' (Suc ?f) \<noteq> []" by (simp add: fm')
      have b: "Suc ?f \<le> node_frequency n" if l: "map_of (lfu_cache ?c') k = Some n" for k n
      proof (cases "k = key")
        case True
        then show ?thesis using l by (auto simp: look)
      next
        case False
        then have lk: "map_of (lfu_cache c) k = Some n" using l by (simp add: look)
        have ge: "?f \<le> node_frequency n" using old(2) [OF lk] True by simp
        have "node_frequency n \<noteq> ?f"
        proof
          assume e: "node_frequency n = ?f"
          have "k \<in> set (lfu_freq_map c ?f)" using i2 [OF lk] e by simp
          then have "k \<in> set (remove1 key (lfu_freq_map c ?f))" using False by simp
          then show False using True by auto
        qed
        with ge show ?thesis by simp
      qed
      show ?thesis unfolding m using a b by blast
    next
      case False
      then have m: "lfu_min_frequency ?c' = lfu_min_frequency c" by (auto simp: min')
      have a: "lfu_freq_map ?c' (lfu_min_frequency c) \<noteq> []"
      proof (cases "lfu_min_frequency c = ?f")
        case True
        then show ?thesis using False by (simp add: fm')
      next
        case ne: False
        then show ?thesis using old(1) by (simp add: fm')
      qed
      have b: "lfu_min_frequency c \<le> node_frequency n" if l: "map_of (lfu_cache ?c') k = Some n" for k n
      proof (cases "k = key")
        case True
        then have "node_frequency n = Suc ?f" using l by (auto simp: look)
        then show ?thesis using old(2) [OF node] by simp
      next
        case False
        then have "map_of (lfu_cache c) k = Some n" using l by (simp add: look)
        then show ?thesis by (rule old(2))
      qed
      show ?thesis unfolding m using a b by blast
    qed
  qed
  show ?thesis
    unfolding lfu_inv_def using c1 c2 c3 c4 c5 c6 by blast
qed

lemma lfu_inv_wf: "lfu_inv c \<Longrightarrow> lfu_wf c"
  unfolding lfu_inv_def lfu_wf_def by blast

lemma lfu_inv_from_wf:
  assumes "lfu_wf c" "length (lfu_cache c) \<le> lfu_max_size c"
    and "length (lfu_cache c) \<ge> lfu_max_size c \<and> lfu_cache c \<noteq> [] \<Longrightarrow>
            lfu_freq_map c (lfu_min_frequency c) \<noteq> []
            \<and> (\<forall>k n. map_of (lfu_cache c) k = Some n \<longrightarrow> lfu_min_frequency c \<le> node_frequency n)"
  shows "lfu_inv c"
  using assms unfolding lfu_inv_def lfu_wf_def by blast

lemma butlast_remove1_last:
  assumes "distinct xs" "xs \<noteq> []"
  shows "butlast xs = remove1 (last xs) xs"
proof -
  have xs: "xs = butlast xs @ [last xs]" using assms(2) by simp
  then have "distinct (butlast xs @ [last xs])" using assms(1) by simp
  then have "last xs \<notin> set (butlast xs)" by simp
  then have "remove1 (last xs) (butlast xs @ [last xs]) = butlast xs"
    by (simp add: remove1_append)
  with xs show ?thesis by simp
qed

lemma lfu_wf_drop_key:
  assumes wf: "lfu_wf c" and node: "map_of (lfu_cache c) key = Some node"
  shows "lfu_wf (c\<lparr>lfu_freq_map := (lfu_freq_map c)
                     (node_frequency node := remove1 key (lfu_freq_map c (node_frequency node))),
                   lfu_min_frequency := m,
                   lfu_cache := AList.delete key (lfu_cache c)\<rparr>)"
proof -
  let ?f = "node_frequency node"
  have d: "distinct (map fst (lfu_cache c))"
    and i2: "\<And>k n. map_of (lfu_cache c) k = Some n \<Longrightarrow>
               k \<in> set (lfu_freq_map c (node_frequency n)) \<and> 1 \<le> node_frequency n"
    and i3: "\<And>f k. k \<in> set (lfu_freq_map c f) \<Longrightarrow>
               \<exists>n. map_of (lfu_cache c) k = Some n \<and> node_frequency n = f"
    and i4: "\<And>f. distinct (lfu_freq_map c f)"
    using wf unfolding lfu_wf_def by blast+
  let ?c' = "c\<lparr>lfu_freq_map := (lfu_freq_map c)
                     (node_frequency node := remove1 key (lfu_freq_map c (node_frequency node))),
                   lfu_min_frequency := m,
                   lfu_cache := AList.delete key (lfu_cache c)\<rparr>"
  have look: "\<And>k. map_of (lfu_cache ?c') k = (if k = key then None else map_of (lfu_cache c) k)"
    by (simp add: delete_conv')
  have fm: "lfu_freq_map ?c' = (\<lambda>g. if g = ?f then remove1 key (lfu_freq_map c ?f)
                                else lfu_freq_map c g)"
    by (auto simp: fun_eq_iff)
  have c1: "distinct (map fst (lfu_cache ?c'))"
    using d by (simp add: distinct_delete)
  have c2: "k \<in> set (lfu_freq_map ?c' (node_frequency n)) \<and> 1 \<le> node_frequency n"
    if "map_of (lfu_cache ?c') k = Some n" for k n
  proof -
    have kk: "k \<noteq> key" and l: "map_of (lfu_cache c) k = Some n"
      using that by (auto simp: delete_conv' split: if_splits)
    from i2 [OF l] kk show ?thesis by (auto simp: fm)
  qed
  have c3: "\<exists>n. map_of (lfu_cache ?c') k = Some n \<and> node_frequency n = f"
    if a: "k \<in> set (lfu_freq_map ?c' f)" for f k
  proof -
    have kin: "k \<in> set (lfu_freq_map c f)"
      using a set_remove1_subset [of key "lfu_freq_map c ?f"] by (auto split: if_splits)
    have "k \<noteq> key"
    proof
      assume e: "k = key"
      from i3 [OF kin] node e have "f = ?f" by auto
      with a e have "key \<in> set (remove1 key (lfu_freq_map c ?f))" by simp
      then show False using i4 [of ?f] by simp
    qed
    with i3 [OF kin] show ?thesis by (simp add: delete_conv')
  qed
  have c4: "distinct (lfu_freq_map ?c' f)" for f
    using i4 by simp
  show "lfu_wf ?c'"
    unfolding lfu_wf_def using c1 c2 c3 c4 by blast
qed

lemma lfu_inv_remove: 
  assumes "lfu_inv c"
  shows "lfu_inv (snd (LFUCache_remove c key))"
proof (cases "map_of (lfu_cache c) key")
  case None
  then show ?thesis using assms by (simp add: LFUCache_remove_def)
next
  case (Some node)
  let ?m = "(if remove1 key (lfu_freq_map c (node_frequency node)) = []
                 \<and> node_frequency node = lfu_min_frequency c
             then lfu_min_frequency c + 1 else lfu_min_frequency c)"
  let ?c' = "c\<lparr>lfu_freq_map := (lfu_freq_map c)
                     (node_frequency node := remove1 key (lfu_freq_map c (node_frequency node))),
                   lfu_min_frequency := ?m,
                   lfu_cache := AList.delete key (lfu_cache c)\<rparr>"
  have e: "snd (LFUCache_remove c key) = ?c'"
    using Some by (simp add: LFUCache_remove_def Let_def)
  have wf: "lfu_wf ?c'"
    by (rule lfu_wf_drop_key [OF lfu_inv_wf [OF assms] Some])
  have d: "distinct (map fst (lfu_cache c))" and le: "length (lfu_cache c) \<le> lfu_max_size c"
    using assms unfolding lfu_inv_def by blast+
  have len: "Suc (length (lfu_cache ?c')) = length (lfu_cache c)"
    using alist_length_delete [OF d Some] by simp
  have mx: "lfu_max_size ?c' = lfu_max_size c" by simp
  show ?thesis
    unfolding e
  proof (rule lfu_inv_from_wf [OF wf])
    show "length (lfu_cache ?c') \<le> lfu_max_size ?c'" using len le mx by linarith
  next
    assume "lfu_max_size ?c' \<le> length (lfu_cache ?c') \<and> lfu_cache ?c' \<noteq> []"
    then have False using len le mx by linarith
    then show "lfu_freq_map ?c' (lfu_min_frequency ?c') \<noteq> [] \<and>
      (\<forall>k n. map_of (lfu_cache ?c') k = Some n \<longrightarrow> lfu_min_frequency ?c' \<le> node_frequency n)"
      by blast
  qed
qed

lemma lfu_inv_insert_new:
  assumes wf: "lfu_wf c" and none: "map_of (lfu_cache c) key = None"
      and room: "Suc (length (lfu_cache c)) \<le> lfu_max_size c"
  shows "lfu_inv (lfu_insert_new c key val)"
proof -
  let ?c' = "lfu_insert_new c key val"
  have d: "distinct (map fst (lfu_cache c))"
    and i2: "\<And>k n. map_of (lfu_cache c) k = Some n \<Longrightarrow>
               k \<in> set (lfu_freq_map c (node_frequency n)) \<and> 1 \<le> node_frequency n"
    and i3: "\<And>f k. k \<in> set (lfu_freq_map c f) \<Longrightarrow>
               \<exists>n. map_of (lfu_cache c) k = Some n \<and> node_frequency n = f"
    and i4: "\<And>f. distinct (lfu_freq_map c f)"
    using wf unfolding lfu_wf_def by blast+
  have look: "\<And>k. map_of (lfu_cache ?c') k
        = (if k = key then Some \<lparr>node_value = val, node_frequency = 1\<rparr> else map_of (lfu_cache c) k)"
    by (simp add: lfu_insert_new_def update_conv')
  have fm: "lfu_freq_map ?c' = (\<lambda>g. if g = 1 then key # lfu_freq_map c 1 else lfu_freq_map c g)"
    by (auto simp: lfu_insert_new_def fun_eq_iff)
  have mn: "lfu_min_frequency ?c' = 1" and mx: "lfu_max_size ?c' = lfu_max_size c"
    by (simp_all add: lfu_insert_new_def)
  have len: "length (lfu_cache ?c') = Suc (length (lfu_cache c))"
    using alist_length_update_new [OF none] by (simp add: lfu_insert_new_def)
  have notin: "key \<notin> set (lfu_freq_map c f)" for f
    using i3 [of key f] none by auto
  have c1: "distinct (map fst (lfu_cache ?c'))"
    using d by (simp add: lfu_insert_new_def distinct_update)
  have c2: "k \<in> set (lfu_freq_map ?c' (node_frequency n)) \<and> 1 \<le> node_frequency n"
    if "map_of (lfu_cache ?c') k = Some n" for k n
    using that i2 [of k n] by (cases "k = key") (auto simp: look fm)
  have c3: "\<exists>n. map_of (lfu_cache ?c') k = Some n \<and> node_frequency n = f"
    if "k \<in> set (lfu_freq_map ?c' f)" for f k
    using that i3 [of k f] notin [of f] by (cases "k = key") (auto simp: look fm split: if_splits)
  have c4: "distinct (lfu_freq_map ?c' f)" for f
    using i4 notin by (simp add: fm)
  have wf': "lfu_wf ?c'"
    unfolding lfu_wf_def using c1 c2 c3 c4 by blast
  show ?thesis
  proof (rule lfu_inv_from_wf [OF wf'])
    show "length (lfu_cache ?c') \<le> lfu_max_size ?c'" using len room mx by simp
  next
    have a: "lfu_freq_map ?c' (lfu_min_frequency ?c') \<noteq> []" by (simp add: fm mn)
    have b: "lfu_min_frequency ?c' \<le> node_frequency n" if "map_of (lfu_cache ?c') k = Some n" for k n
      using that i2 [of k n] by (cases "k = key") (auto simp: look mn)
    show "lfu_freq_map ?c' (lfu_min_frequency ?c') \<noteq> [] \<and>
      (\<forall>k n. map_of (lfu_cache ?c') k = Some n \<longrightarrow> lfu_min_frequency ?c' \<le> node_frequency n)"
      using a b by blast
  qed
qed

lemma lfu_evict_state:
  assumes inv: "lfu_inv c" and ne: "lfu_freq_map c (lfu_min_frequency c) \<noteq> []"
  defines "victim \<equiv> last (lfu_freq_map c (lfu_min_frequency c))"
  defines "c1 \<equiv> c\<lparr>lfu_freq_map := (lfu_freq_map c)
                       (lfu_min_frequency c := butlast (lfu_freq_map c (lfu_min_frequency c))),
                    lfu_cache := AList.delete victim (lfu_cache c)\<rparr>"
  shows "\<exists>n. map_of (lfu_cache c) victim = Some n \<and> node_frequency n = lfu_min_frequency c"
    and "lfu_wf c1"
    and "Suc (length (lfu_cache c1)) = length (lfu_cache c)"
proof -
  have wf: "lfu_wf c" by (rule lfu_inv_wf [OF inv])
  have d: "distinct (map fst (lfu_cache c))"
    and i3: "\<And>f k. k \<in> set (lfu_freq_map c f) \<Longrightarrow>
               \<exists>n. map_of (lfu_cache c) k = Some n \<and> node_frequency n = f"
    and i4: "\<And>f. distinct (lfu_freq_map c f)"
    using wf unfolding lfu_wf_def by blast+
  have "victim \<in> set (lfu_freq_map c (lfu_min_frequency c))"
    unfolding victim_def using ne by simp
  from i3 [OF this] obtain n where n: "map_of (lfu_cache c) victim = Some n"
    "node_frequency n = lfu_min_frequency c" by blast
  then show "\<exists>n. map_of (lfu_cache c) victim = Some n \<and> node_frequency n = lfu_min_frequency c"
    by blast
  have bl: "butlast (lfu_freq_map c (lfu_min_frequency c))
            = remove1 victim (lfu_freq_map c (lfu_min_frequency c))"
    unfolding victim_def by (rule butlast_remove1_last [OF i4 ne])
  have e: "c1 = c\<lparr>lfu_freq_map := (lfu_freq_map c)
                     (node_frequency n := remove1 victim (lfu_freq_map c (node_frequency n))),
                   lfu_min_frequency := lfu_min_frequency c,
                   lfu_cache := AList.delete victim (lfu_cache c)\<rparr>"
    unfolding c1_def bl n(2) by simp
  show "lfu_wf c1"
    unfolding e by (rule lfu_wf_drop_key [OF wf n(1)])
  show "Suc (length (lfu_cache c1)) = length (lfu_cache c)"
    using alist_length_delete [OF d n(1)] by (simp add: c1_def)
qed

lemma lfu_inv_put:
  assumes inv: "lfu_inv c" and put: "LFUCache_put c key val = Some (r, c')"
  shows "lfu_inv c'"
proof (cases "map_of (lfu_cache c) key")
  case (Some node)
  then have "c' = lfu_bump c key (node\<lparr>node_value := val\<rparr>)"
    using put by (simp add: LFUCache_put_def)
  then show ?thesis using lfu_inv_bump [OF inv Some, of "node\<lparr>node_value := val\<rparr>"] by simp
next
  case None
  have le: "length (lfu_cache c) \<le> lfu_max_size c" using inv unfolding lfu_inv_def by blast
  show ?thesis
  proof (cases "length (lfu_cache c) \<ge> lfu_max_size c")
    case False
    then have "c' = lfu_insert_new c key val"
      using put None by (simp add: LFUCache_put_def)
    moreover have "lfu_inv (lfu_insert_new c key val)"
      using False by (intro lfu_inv_insert_new [OF lfu_inv_wf [OF inv] None]) simp
    ultimately show ?thesis by simp
  next
    case True
    then have ne: "lfu_freq_map c (lfu_min_frequency c) \<noteq> []"
      using put None by (auto simp: LFUCache_put_def split: if_splits)
    let ?victim = "last (lfu_freq_map c (lfu_min_frequency c))"
    let ?c1 = "c\<lparr>lfu_freq_map := (lfu_freq_map c)
                       (lfu_min_frequency c := butlast (lfu_freq_map c (lfu_min_frequency c))),
                    lfu_cache := AList.delete ?victim (lfu_cache c)\<rparr>"
    have c': "c' = lfu_insert_new ?c1 key val"
      using put None True ne by (simp add: LFUCache_put_def Let_def)
    have none1: "map_of (lfu_cache ?c1) key = None"
      using None by (simp add: delete_conv')
    have room: "Suc (length (lfu_cache ?c1)) \<le> lfu_max_size ?c1"
      using lfu_evict_state(3) [OF inv ne] le by simp
    show ?thesis
      unfolding c' by (rule lfu_inv_insert_new [OF lfu_evict_state(2) [OF inv ne] none1 room])
  qed
qed

lemma lfu_max_size_bump: "lfu_max_size (lfu_bump c key node) = lfu_max_size c"
  by (simp add: lfu_bump_def Let_def)

lemma lfu_max_size_insert_new: "lfu_max_size (lfu_insert_new c key val) = lfu_max_size c"
  by (simp add: lfu_insert_new_def)

lemma lfu_max_size_put:
  "LFUCache_put c key val = Some (r, c') \<Longrightarrow> lfu_max_size c' = lfu_max_size c"
  unfolding LFUCache_put_def Let_def
  by (auto simp: lfu_max_size_bump lfu_max_size_insert_new split: option.splits if_splits)

lemma lfu_max_size_get: "lfu_max_size (snd (LFUCache_get c key)) = lfu_max_size c"
  by (simp add: LFUCache_get_def lfu_max_size_bump split: option.splits)

lemma lfu_max_size_remove: "lfu_max_size (snd (LFUCache_remove c key)) = lfu_max_size c"
  by (simp add: LFUCache_remove_def Let_def split: option.splits)

lemma lfu_step_Put:
  assumes "LFUCache_step c (Put key val) = Some c'"
  shows "\<exists>r. LFUCache_put c key val = Some (r, c')"
proof (cases "LFUCache_put c key val")
  case None
  with assms show ?thesis by simp
next
  case (Some p)
  with assms have "snd p = c'" by simp
  then have "p = (fst p, c')" by (cases p) simp
  with Some show ?thesis by metis
qed

lemma lfu_max_size_step:
  assumes "LFUCache_step c x = Some c'"
  shows "lfu_max_size c' = lfu_max_size c"
proof (cases x)
  case (Put key val)
  then obtain r where "LFUCache_put c key val = Some (r, c')"
    using lfu_step_Put assms by blast
  then show ?thesis by (rule lfu_max_size_put)
next
  case (Get key)
  with assms have "c' = snd (LFUCache_get c key)" by simp
  then show ?thesis by (simp only: lfu_max_size_get)
next
  case (Remove key)
  with assms have "c' = snd (LFUCache_remove c key)" by simp
  then show ?thesis by (simp only: lfu_max_size_remove)
qed

lemma lfu_inv_step:
  assumes "lfu_inv c" "LFUCache_step c x = Some c'"
  shows "lfu_inv c'"
proof (cases x)
  case (Put key val)
  then obtain r where "LFUCache_put c key val = Some (r, c')"
    using lfu_step_Put assms(2) by blast
  then show ?thesis by (rule lfu_inv_put [OF assms(1)])
next
  case (Get key)
  with assms(2) have c': "c' = snd (LFUCache_get c key)" by simp
  show ?thesis
  proof (cases "map_of (lfu_cache c) key")
    case None
    then have "c' = c" unfolding c' by (simp add: LFUCache_get_def)
    then show ?thesis using assms(1) by simp
  next
    case (Some node)
    then have "c' = lfu_bump c key node" unfolding c' by (simp add: LFUCache_get_def)
    then show ?thesis using lfu_inv_bump [OF assms(1) Some, of node] by simp
  qed
next
  case (Remove key)
  with assms(2) have "c' = snd (LFUCache_remove c key)" by simp
  then show ?thesis using lfu_inv_remove [OF assms(1), of key] by simp
qed

lemma lfu_inv_run:
  "lfu_inv c \<Longrightarrow> LFUCache_run c ops = Some c' \<Longrightarrow>
   lfu_inv c' \<and> lfu_max_size c' = lfu_max_size c"
proof (induction ops arbitrary: c)
  case Nil
  then show ?case by simp
next
  case (Cons x xs)
  then obtain c1 where s: "LFUCache_step c x = Some c1" and r: "LFUCache_run c1 xs = Some c'"
    by (auto split: option.splits)
  have "lfu_inv c1" by (rule lfu_inv_step [OF Cons.prems(1) s])
  from Cons.IH [OF this r] lfu_max_size_step [OF s] show ?case by simp
qed

lemma lfu_put_defined:
  assumes inv: "lfu_inv c" and cap: "1 \<le> lfu_max_size c"
  shows "\<exists>r c'. LFUCache_put c key val = Some (r, c')"
proof (cases "map_of (lfu_cache c) key = None \<and> length (lfu_cache c) \<ge> lfu_max_size c")
  case False
  then show ?thesis by (auto simp: LFUCache_put_def split: option.splits)
next
  case True
  then have "lfu_cache c \<noteq> []" using cap by auto
  then have "lfu_freq_map c (lfu_min_frequency c) \<noteq> []"
    using inv True unfolding lfu_inv_def by blast
  then show ?thesis using True by (auto simp: LFUCache_put_def Let_def)
qed

lemma lfu_run_defined:
  "lfu_inv c \<Longrightarrow> 1 \<le> lfu_max_size c \<Longrightarrow> \<exists>c'. LFUCache_run c ops = Some c'"
proof (induction ops arbitrary: c)
  case Nil
  then show ?case by simp
next
  case (Cons x xs)
  have "\<exists>c1. LFUCache_step c x = Some c1"
  proof (cases x)
    case (Put key val)
    then show ?thesis using lfu_put_defined [OF Cons.prems, of key val] by auto
  qed simp_all
  then obtain c1 where s: "LFUCache_step c x = Some c1" by blast
  have "lfu_inv c1" by (rule lfu_inv_step [OF Cons.prems(1) s])
  moreover have "1 \<le> lfu_max_size c1" using lfu_max_size_step [OF s] Cons.prems(2) by simp
  ultimately obtain c' where "LFUCache_run c1 xs = Some c'" using Cons.IH by blast
  then show ?case using s by simp
qed

lemma alist_keys_delete: "fst ` set (AList.delete k al) = fst ` set al - {k}"
proof -
  have "set (map fst (AList.delete k al)) = set (removeAll k (map fst al))"
    by (simp only: delete_keys)
  then show ?thesis by simp
qed

lemma lfu_eviction_minimal:
  assumes inv: "lfu_inv c" and put: "LFUCache_put c key val = Some (r, c')"
      and k: "k \<in> lfu_keys c" "k \<notin> lfu_keys c'"
  shows "length (lfu_cache c) \<ge> lfu_max_size c
         \<and> map_of (lfu_cache c) key = None
         \<and> k = last (lfu_freq_map c (lfu_min_frequency c))
         \<and> (\<forall>k' \<in> lfu_keys c. lfu_frequency c k \<le> lfu_frequency c k')"
proof (cases "map_of (lfu_cache c) key")
  case (Some node)
  then have "c' = lfu_bump c key (node\<lparr>node_value := val\<rparr>)"
    using put by (simp add: LFUCache_put_def)
  then have "lfu_keys c' = insert key (lfu_keys c)"
    by (simp add: lfu_keys_def lfu_bump_def Let_def dom_update)
  with k show ?thesis by simp
next
  case None
  show ?thesis
  proof (cases "length (lfu_cache c) \<ge> lfu_max_size c")
    case False
    then have "c' = lfu_insert_new c key val"
      using put None by (simp add: LFUCache_put_def)
    then have "lfu_keys c' = insert key (lfu_keys c)"
      by (simp add: lfu_keys_def lfu_insert_new_def dom_update)
    with k show ?thesis by simp
  next
    case True
    then have ne: "lfu_freq_map c (lfu_min_frequency c) \<noteq> []"
      using put None by (auto simp: LFUCache_put_def split: if_splits)
    let ?victim = "last (lfu_freq_map c (lfu_min_frequency c))"
    let ?c1 = "c\<lparr>lfu_freq_map := (lfu_freq_map c)
                       (lfu_min_frequency c := butlast (lfu_freq_map c (lfu_min_frequency c))),
                    lfu_cache := AList.delete ?victim (lfu_cache c)\<rparr>"
    have c': "c' = lfu_insert_new ?c1 key val"
      using put None True ne by (simp add: LFUCache_put_def Let_def)
    have "lfu_keys c' = insert key (fst ` set (AList.delete ?victim (lfu_cache c)))"
      unfolding c' by (simp add: lfu_keys_def lfu_insert_new_def dom_update)
    moreover have "k \<noteq> ?victim \<Longrightarrow> k \<in> fst ` set (AList.delete ?victim (lfu_cache c))"
      using k(1) unfolding lfu_keys_def alist_keys_delete by simp
    ultimately have kv: "k = ?victim" using k(2) by blast
    obtain n where n: "map_of (lfu_cache c) ?victim = Some n"
      "node_frequency n = lfu_min_frequency c"
      using lfu_evict_state(1) [OF inv ne] by blast
    have nonempty: "lfu_cache c \<noteq> []" using n(1) by auto
    have minimal: "\<And>k' n'. map_of (lfu_cache c) k' = Some n' \<Longrightarrow>
                     lfu_min_frequency c \<le> node_frequency n'"
      using inv True nonempty unfolding lfu_inv_def by blast
    have "lfu_frequency c k \<le> lfu_frequency c k'" if "k' \<in> lfu_keys c" for k'
    proof -
      have "k' \<in> fst ` set (lfu_cache c)" using that by (simp add: lfu_keys_def)
      then obtain n' where n': "map_of (lfu_cache c) k' = Some n'"
        by (cases "map_of (lfu_cache c) k'") (auto simp: map_of_eq_None_iff)
      show ?thesis
        using minimal [OF n'] n n' kv by (simp add: lfu_frequency_def)
    qed
    then show ?thesis using True None kv by blast
  qed
qed

text \<open>
  C8. Take any sequence of put, get and remove calls on a new LFUCache of any capacity, and
  a further put after it. If the sequence and the put run without undefined behaviour and
  the put removes a key \<open>k\<close> that was present, then the cache was full and the frequency of
  \<open>k\<close> at that moment is the minimum of the frequencies of the keys present. With a capacity
  of at least 1 no call has undefined behaviour, so the sequence and the put do return.
  (With capacity 0 a put reads \<open>back()\<close> of an empty list: nothing is ever stored or evicted.)
\<close>

theorem C8_lfu_evicts_minimum:
  "(1 \<le> cap \<longrightarrow>
      (\<exists>c. LFUCache_run (LFUCache_new cap) ops = Some c
           \<and> (\<exists>r c'. LFUCache_put c key val = Some (r, c'))))
   \<and> (\<forall>c r c' k.
        LFUCache_run (LFUCache_new cap) ops = Some c
        \<and> LFUCache_put c key val = Some (r, c')
        \<and> k \<in> lfu_keys c \<and> k \<notin> lfu_keys c'
        \<longrightarrow> length (lfu_cache c) \<ge> lfu_max_size c
            \<and> (\<forall>k' \<in> lfu_keys c. lfu_frequency c k \<le> lfu_frequency c k'))"
proof (intro conjI impI allI)
  assume cap: "1 \<le> cap"
  have m: "1 \<le> lfu_max_size (LFUCache_new cap)" using cap by (simp add: LFUCache_new_def)
  obtain c where c: "LFUCache_run (LFUCache_new cap) ops = Some c"
    using lfu_run_defined [OF lfu_inv_new m] by blast
  have "lfu_inv c" "1 \<le> lfu_max_size c"
    using lfu_inv_run [OF lfu_inv_new c] m by simp_all
  from lfu_put_defined [OF this] c
  show "\<exists>c. LFUCache_run (LFUCache_new cap) ops = Some c
           \<and> (\<exists>r c'. LFUCache_put c key val = Some (r, c'))"
    by blast
next
  fix c r c' k
  assume a: "LFUCache_run (LFUCache_new cap) ops = Some c
        \<and> LFUCache_put c key val = Some (r, c')
        \<and> k \<in> lfu_keys c \<and> k \<notin> lfu_keys c'"
  then have inv: "lfu_inv c" using lfu_inv_run [OF lfu_inv_new] by blast
  from lfu_eviction_minimal [OF inv] a
  have "length (lfu_cache c) \<ge> lfu_max_size c
         \<and> (\<forall>k' \<in> lfu_keys c. lfu_frequency c k \<le> lfu_frequency c k')"
    by blast
  then show "length (lfu_cache c) \<ge> lfu_max_size c" 
    and "\<forall>k' \<in> lfu_keys c. lfu_frequency c k \<le> lfu_frequency c k'"
    by blast+
qed

lemma lfu_example_run:
  "LFUCache_run (LFUCache_new 2) lfu_example_ops = Some lfu_example_state"
  by (simp add: lfu_example_ops_def lfu_example_state_def LFUCache_new_def LFUCache_put_def
      LFUCache_get_def lfu_bump_def lfu_insert_new_def Let_def fun_eq_iff)

lemma lfu_example_put:
  "LFUCache_put lfu_example_state ''c'' ''3'' = Some (True, lfu_example_after)"
  by (simp add: lfu_example_state_def lfu_example_after_def LFUCache_put_def
      lfu_insert_new_def Let_def AList.delete_eq fun_eq_iff)

lemma lfu_example_facts:
  "''b'' \<in> lfu_keys lfu_example_state" "''b'' \<notin> lfu_keys lfu_example_after"
  "''a'' \<in> lfu_keys lfu_example_state"
  "lfu_frequency lfu_example_state ''b'' = 1" "lfu_frequency lfu_example_state ''a'' = 2"
  by (simp_all add: lfu_keys_def lfu_frequency_def lfu_example_state_def lfu_example_after_def)

theorem C8_witness:
  "(1::nat) \<le> 2
   \<and> LFUCache_run (LFUCache_new 2) lfu_example_ops = Some lfu_example_state
   \<and> LFUCache_put lfu_example_state ''c'' ''3'' = Some (True, lfu_example_after)
   \<and> ''b'' \<in> lfu_keys lfu_example_state \<and> ''b'' \<notin> lfu_keys lfu_example_after
   \<and> length (lfu_cache lfu_example_state) \<ge> lfu_max_size lfu_example_state
   \<and> lfu_frequency lfu_example_state ''b'' \<le> lfu_frequency lfu_example_state ''a''
   \<and> lfu_frequency lfu_example_state ''b'' = 1
   \<and> lfu_frequency lfu_example_state ''a'' = 2"
proof -
  have prem: "LFUCache_run (LFUCache_new 2) lfu_example_ops = Some lfu_example_state
        \<and> LFUCache_put lfu_example_state ''c'' ''3'' = Some (True, lfu_example_after)
        \<and> ''b'' \<in> lfu_keys lfu_example_state \<and> ''b'' \<notin> lfu_keys lfu_example_after"
    by (intro conjI) (rule lfu_example_run lfu_example_put lfu_example_facts(1,2))+
  note th = C8_lfu_evicts_minimum [of 2 lfu_example_ops "''c''" "''3''", THEN conjunct2,
      THEN spec, THEN spec, THEN spec, THEN spec, THEN mp, OF prem]
  have full: "length (lfu_cache lfu_example_state) \<ge> lfu_max_size lfu_example_state"
    by (rule th [THEN conjunct1])
  have le: "lfu_frequency lfu_example_state ''b'' \<le> lfu_frequency lfu_example_state ''a''"
    by (rule th [THEN conjunct2, THEN bspec, OF lfu_example_facts(3)])
  have one: "(1::nat) \<le> 2" by simp
  show ?thesis
    by (intro conjI)
       (rule one lfu_example_run lfu_example_put lfu_example_facts(1,2,4,5) full le)+
qed

subsection \<open>Hashing and the key of the build cache\<close>

lemma fold_dep_stream:
  "fold (\<lambda>dep ks. ks @ ''dep='' @ dep @ '':'' @ calculate_file_hash hasher files dep @ '';'') deps ks0
   = ks0 @ concat (map (dep_component (calculate_string_hash hasher) files) deps)"
  by (induction deps arbitrary: ks0)
     (simp_all add: dep_component_def calculate_file_hash_def)

lemma key_stream_eq:
  "fold (\<lambda>dep ks. ks @ ''dep='' @ dep @ '':'' @ calculate_file_hash hasher files dep @ '';'') deps
     ((''target='' @ target @ '';'') @ ''command='' @ calculate_command_hash hasher command @ '';'')
   = key_string (calculate_string_hash hasher) files target command deps"
  unfolding fold_dep_stream
  by (simp add: key_string_def calculate_command_hash_def)

text \<open>
  C7, as the code has it. \<open>cache_build_result\<close> and \<open>get_cached_build_result\<close> both use
  the key \<open>H\<close> of the string "target=t;command=H(command);dep=p:H(content(p));..." in the
  order of the dependencies, where \<open>H\<close> is \<open>calculate_string_hash\<close>: the hexadecimal digits,
  not padded, of \<open>std::hash<std::string>\<close>. A dependency that cannot be read contributes
  "dep=p:;".
\<close>

theorem C7_cache_key_derivation:
  "cache_build_result hasher files bc target command deps result
     = map_option (\<lambda>(r, c). (r, bc\<lparr>bc_cache := c\<rparr>))
         (BaseCache_put (bc_cache bc)
            (build_cache_key (calculate_string_hash hasher) files target command deps) result)
   \<and> get_cached_build_result hasher files bc target command deps
     = (let (v, c) = BaseCache_get (bc_cache bc)
                       (build_cache_key (calculate_string_hash hasher) files target command deps)
        in (v, bc\<lparr>bc_cache := c\<rparr>))
   \<and> calculate_string_hash hasher s = hex_of_nat (hasher s)
   \<and> dep_component (calculate_string_hash hasher) (files(p := None)) p = ''dep='' @ p @ '':;''"
  unfolding cache_build_result_def get_cached_build_result_def Let_def key_stream_eq
  by (simp add: build_cache_key_def calculate_string_hash_def dep_component_def)

text \<open>
  C7 as stated fails even where \<open>std::hash\<close> is the FNV-1a hash: for the target t31, the
  command cc and no dependency, the key of the code has 15 digits, and it is not the content
  hash of section 4.A of the string that the claim describes (whose command part is padded).
\<close>

theorem C7_key_counterexample:
  "build_cache_key (calculate_string_hash fnv_hasher) Map.empty ''t31'' ''cc'' [] = ''d9efbfd8e7d17be''
   \<and> build_cache_key (compute_hash False) Map.empty ''t31'' ''cc'' [] \<noteq> ''d9efbfd8e7d17be''
   \<and> length (build_cache_key (calculate_string_hash fnv_hasher) Map.empty ''t31'' ''cc'' []) = 15"
  by (simp add: build_cache_key_def key_string_def calculate_string_hash_def fnv_hasher_def
      compute_hash_def fnv1a_hash_def char_to_uint64_def hex_of_nat.simps setw_fill_def hex_digit_def)

text \<open>
  C6. Where plain \<open>char\<close> is signed, the byte 0x80 is sign-extended before the XOR:
  \<open>compute_hash\<close> of the one-byte string 0x80 is 509c0cb379fdec5f, and the FNV-1a hash of
  that string, rendered the same way, is af643d4c8602915f.
\<close>

theorem C6_signed_char_high_byte:
  "compute_hash True [CHR 0x80] = ''509c0cb379fdec5f''
   \<and> setw_fill 16 (CHR ''0'') (hex_of_nat (unat (fnv1a_64_standard [CHR 0x80]))) = ''af643d4c8602915f''"
  by (simp add: compute_hash_def fnv1a_hash_def fnv1a_64_standard_def char_to_uint64_def
      hex_of_nat.simps setw_fill_def hex_digit_def)

subsection \<open>UnitManager: the affected closure\<close>

lemma collect_pending_append:
  "collect_pending um (xs @ ys) visited = collect_pending um ys (collect_pending um xs visited)"
  by (induction um xs visited rule: collect_pending.induct) (auto split: option.splits)

lemma collect_pending_fold:
  "collect_pending um xs visited = fold (collect_affected_recursive um) xs visited"
proof (induction xs arbitrary: visited)
  case Nil
  show ?case by simp
next
  case (Cons x xs)
  have "collect_pending um ([x] @ xs) visited = collect_pending um xs (collect_pending um [x] visited)"
    by (rule collect_pending_append)
  then show ?case
    using Cons.IH by (simp add: collect_affected_recursive_def)
qed

lemma collect_affected_recursive_unfold:
  "collect_affected_recursive um i visited =
     (if i \<in> set visited then visited
      else (case get_unit um i of
              None \<Rightarrow> i # visited
            | Some u \<Rightarrow> fold (collect_affected_recursive um) (dependents u) (i # visited)))"
  by (simp add: collect_affected_recursive_def collect_pending_fold [symmetric] split: option.splits)

lemma collect_pending_distinct:
  "distinct visited \<Longrightarrow> distinct (collect_pending um pending visited)"
  by (induction um pending visited rule: collect_pending.induct) (auto split: option.splits)

lemma edges_None: "get_unit um i = None \<Longrightarrow> dependents_edges um `` {i} = {}"
  by (auto simp: dependents_edges_def)

lemma edges_Some: "get_unit um i = Some u \<Longrightarrow> dependents_edges um `` {i} = set (dependents u)"
  by (auto simp: dependents_edges_def)

lemma collect_pending_correct:
  assumes "\<forall>a\<in>set visited. dependents_edges um `` {a} \<subseteq> set visited \<union> set pending"
  shows "set visited \<union> set pending \<subseteq> set (collect_pending um pending visited) \<and>
         (\<forall>a\<in>set (collect_pending um pending visited).
            dependents_edges um `` {a} \<subseteq> set (collect_pending um pending visited)) \<and>
         set (collect_pending um pending visited)
           \<subseteq> set visited \<union> (dependents_edges um)\<^sup>* `` set pending"
  using assms
proof (induction um pending visited rule: collect_pending.induct)
  case (1 um visited)
  then show ?case by auto
next
  case (2 um i pending visited)
  let ?E = "dependents_edges um"
  show ?case
  proof (cases "i \<in> set visited")
    case True
    have inv: "\<forall>a\<in>set visited. ?E `` {a} \<subseteq> set visited \<union> set pending"
      using "2.prems" True by auto
    from "2.IH"(1) [OF True inv] True show ?thesis by auto
  next
    case False
    show ?thesis
    proof (cases "get_unit um i")
      case None
      have inv: "\<forall>a\<in>set (i # visited). ?E `` {a} \<subseteq> set (i # visited) \<union> set pending"
        using "2.prems" edges_None [OF None] by auto
      from "2.IH"(2) [OF False None inv] False None show ?thesis
        by auto
    next
      case (Some u)
      have inv: "\<forall>a\<in>set (i # visited).
                   ?E `` {a} \<subseteq> set (i # visited) \<union> set (dependents u @ pending)"
        using "2.prems" edges_Some [OF Some] by auto
      have step: "?E\<^sup>* `` set (dependents u) \<subseteq> ?E\<^sup>* `` {i}"
      proof
        fix y assume "y \<in> ?E\<^sup>* `` set (dependents u)"
        then obtain d where d: "d \<in> set (dependents u)" "(d, y) \<in> ?E\<^sup>*" by auto
        from d(1) have "(i, d) \<in> ?E" using edges_Some [OF Some] by auto
        with d(2) show "y \<in> ?E\<^sup>* `` {i}" by (auto intro: converse_rtrancl_into_rtrancl)
      qed
      from "2.IH"(3) [OF False Some inv]
      have a: "set (i # visited) \<union> set (dependents u @ pending)
                 \<subseteq> set (collect_pending um (dependents u @ pending) (i # visited))"
       and b: "\<forall>a\<in>set (collect_pending um (dependents u @ pending) (i # visited)).
                 ?E `` {a} \<subseteq> set (collect_pending um (dependents u @ pending) (i # visited))"
       and c: "set (collect_pending um (dependents u @ pending) (i # visited))
                 \<subseteq> set (i # visited) \<union> ?E\<^sup>* `` set (dependents u @ pending)"
        by blast+
      have eq: "collect_pending um (i # pending) visited
                  = collect_pending um (dependents u @ pending) (i # visited)"
        using False Some by simp
      have c': "set (collect_pending um (dependents u @ pending) (i # visited))
                 \<subseteq> set visited \<union> ?E\<^sup>* `` set (i # pending)"
      proof
        fix y assume "y \<in> set (collect_pending um (dependents u @ pending) (i # visited))"
        with c have "y \<in> set (i # visited) \<union> ?E\<^sup>* `` set (dependents u @ pending)" by blast
        then consider "y = i" | "y \<in> set visited" | "y \<in> ?E\<^sup>* `` set (dependents u)"
          | "y \<in> ?E\<^sup>* `` set pending" by auto
        then show "y \<in> set visited \<union> ?E\<^sup>* `` set (i # pending)"
        proof cases
          case 1 then show ?thesis by auto
        next
          case 2 then show ?thesis by auto
        next
          case 3 with step show ?thesis by auto
        next
          case 4 then show ?thesis by auto
        qed
      qed
      show ?thesis unfolding eq using a b c' by auto
    qed
  qed
qed

lemma collect_from_seed:
  "set (collect_affected_recursive um x []) = (dependents_edges um)\<^sup>* `` {x}"
proof -
  let ?E = "dependents_edges um"
  let ?R = "set (collect_pending um [x] [])"
  have h: "{x} \<subseteq> ?R" "\<forall>a\<in>?R. ?E `` {a} \<subseteq> ?R" "?R \<subseteq> ?E\<^sup>* `` {x}"
    using collect_pending_correct [of "[]" um "[x]"] by auto
  have "y \<in> ?R" if "(x, y) \<in> ?E\<^sup>*" for y
    using that
  proof (induction rule: rtrancl_induct)
    case base
    then show ?case using h(1) by auto
  next
    case (step y z)
    then show ?case using h(2) by auto
  qed
  with h(3) show ?thesis by (auto simp: collect_affected_recursive_def)
qed

text \<open>
  C1. For every dependency graph held by a UnitManager, cyclic or not, \<open>get_affected_units x\<close>
  returns (the function is total: its recursion is proved to terminate) a list without
  repetition whose elements are exactly the ids reachable from \<open>x\<close> along \<open>dependents\<close>
  edges, \<open>x\<close> itself left out; so every node of a cycle that is reachable from \<open>x\<close>, other
  than \<open>x\<close>, is in the finite result.
\<close>

theorem C1_get_affected_units_reachable:
  "set (get_affected_units um x) = {y. (x, y) \<in> (dependents_edges um)\<^sup>*} - {x}
   \<and> distinct (get_affected_units um x)
   \<and> (\<forall>c. (x, c) \<in> (dependents_edges um)\<^sup>+ \<and> (c, c) \<in> (dependents_edges um)\<^sup>+ \<and> c \<noteq> x
          \<longrightarrow> c \<in> set (get_affected_units um x))"
proof -
  have s: "set (get_affected_units um x) = {y. (x, y) \<in> (dependents_edges um)\<^sup>*} - {x}"
    using collect_from_seed [of um x] by (auto simp: get_affected_units_def)
  have d: "distinct (get_affected_units um x)"
    unfolding get_affected_units_def collect_affected_recursive_def
    by (intro distinct_removeAll collect_pending_distinct) simp
  show ?thesis using s d by (auto dest: trancl_into_rtrancl)
qed

lemma cyc_edges: "(''a'', ''b'') \<in> dependents_edges cyc" "(''b'', ''c'') \<in> dependents_edges cyc"
     "(''c'', ''a'') \<in> dependents_edges cyc"
  by (simp_all add: dependents_edges_def get_unit_def cyc_def add_dependency_def modify_unit_def add_unit_def UnitManager_new_def mk_unit_def file_ids_def)

theorem C1_witness:
  "(''a'', ''b'') \<in> (dependents_edges cyc)\<^sup>+ \<and> (''b'', ''b'') \<in> (dependents_edges cyc)\<^sup>+
   \<and> ''b'' \<noteq> ''a'' \<and> ''b'' \<in> set (get_affected_units cyc ''a'')
   \<and> set (get_affected_units cyc ''a'') = {''b'', ''c''}"
proof -
  have ab: "(''a'', ''b'') \<in> (dependents_edges cyc)\<^sup>+"
    using cyc_edges(1) by (rule r_into_trancl)
  have bb: "(''b'', ''b'') \<in> (dependents_edges cyc)\<^sup>+"
    using cyc_edges by (meson trancl.simps)
  have ne: "''b'' \<noteq> ''a''" by simp
  have m: "''b'' \<in> set (get_affected_units cyc ''a'')"
    using C1_get_affected_units_reachable [of cyc "''a''"] ab bb ne by blast
  have v: "get_affected_units cyc ''a'' = [''c'', ''b'']"
    by code_simp
  show ?thesis using ab bb m v by auto
qed



text \<open>
  C5. The edge symmetry does not survive \<open>remove_unit\<close>: with unit a depending on unit b,
  removing b leaves b in the \<open>dependencies\<close> of a.
\<close>

theorem C5_remove_unit_leaves_forward_edge:
  "edge_symmetric two_units
   \<and> get_unit (remove_unit two_units ''b'') ''b'' = None
   \<and> map_option dependencies (get_unit (remove_unit two_units ''b'') ''a'') = Some [''b'']
   \<and> \<not> edge_symmetric (remove_unit two_units ''b'')"
  by (simp add: edge_symmetric_def two_units_def remove_unit_def add_dependency_def
      modify_unit_def get_unit_def add_unit_def UnitManager_new_def mk_unit_def file_ids_def
      AList.delete_eq)

subsection \<open>ChangeDetector: the line diff\<close>

lemma lcs_len_0 [simp]: "lcs_len xs ys i 0 = 0"
  by (cases i) simp_all

lemma lcs_inv_init:
  "lcs_inv xs ys (replicate (Suc (length xs)) (replicate (Suc (length ys)) 0)) 1 1"
  unfolding lcs_inv_def
  by (auto simp: nth_replicate less_Suc_eq_le simp del: replicate_Suc)

lemma lcs_cell_correct:
  assumes inv: "lcs_inv xs ys dp i j" and i: "1 \<le> i" "i \<le> length xs" and j: "1 \<le> j" "j \<le> length ys"
  shows "lcs_cell xs ys dp i j = int (lcs_len xs ys i j)"
proof -
  obtain i' j' where ij: "i = Suc i'" "j = Suc j'"
    using i j by (metis One_nat_def Suc_le_D)
  have a: "dp ! i' ! j' = int (lcs_len xs ys i' j')"
    using inv i j ij unfolding lcs_inv_def by auto
  have b: "dp ! i' ! j = int (lcs_len xs ys i' j)"
    using inv i j ij unfolding lcs_inv_def by auto
  have c: "dp ! i ! j' = int (lcs_len xs ys i j')"
    using inv i j ij unfolding lcs_inv_def by auto
  show ?thesis
    using a b c by (simp add: lcs_cell_def ij max_def)
qed

lemma lcs_inv_step:
  assumes inv: "lcs_inv xs ys dp i j" and i: "1 \<le> i" "i \<le> length xs" and j: "1 \<le> j" "j \<le> length ys"
  shows "lcs_inv xs ys (dp[i := (dp ! i)[j := lcs_cell xs ys dp i j]]) i (Suc j)"
proof -
  have cell: "lcs_cell xs ys dp i j = int (lcs_len xs ys i j)"
    by (rule lcs_cell_correct [OF inv i j])
  have len: "length dp = Suc (length xs)" and rows: "\<forall>a \<le> length xs. length (dp ! a) = Suc (length ys)"
    using inv unfolding lcs_inv_def by auto
  have ii: "i < length dp" using i len by simp
  have jj: "j < length (dp ! i)" using rows i j by simp
  show ?thesis
    unfolding lcs_inv_def
  proof (intro conjI allI impI)
    show "length (dp[i := (dp ! i)[j := lcs_cell xs ys dp i j]]) = Suc (length xs)"
      using len by simp
  next
    fix a assume "a \<le> length xs"
    then show "length (dp[i := (dp ! i)[j := lcs_cell xs ys dp i j]] ! a) = Suc (length ys)"
      using rows ii by (cases "a = i") auto
  next
    fix a assume "a \<le> length xs"
    then show "dp[i := (dp ! i)[j := lcs_cell xs ys dp i j]] ! a ! 0 = 0"
      using inv ii j unfolding lcs_inv_def by (cases "a = i") auto
  next
    fix a b assume "a < i \<and> a \<le> length xs \<and> b \<le> length ys"
    then show "dp[i := (dp ! i)[j := lcs_cell xs ys dp i j]] ! a ! b = int (lcs_len xs ys a b)"
      using inv ii unfolding lcs_inv_def by auto
  next
    fix b assume b: "b < Suc j \<and> b \<le> length ys \<and> i \<le> length xs"
    show "dp[i := (dp ! i)[j := lcs_cell xs ys dp i j]] ! i ! b = int (lcs_len xs ys i b)"
    proof (cases "b = j")
      case True
      then show ?thesis using ii jj cell by simp
    next
      case False
      with b have "b < j" by simp
      then show ?thesis using inv ii b False unfolding lcs_inv_def by auto
    qed
  qed
qed

lemma lcs_inv_inner:
  assumes inv: "lcs_inv xs ys dp i 1" and i: "1 \<le> i" "i \<le> length xs"
  shows "k \<le> length ys \<Longrightarrow>
         lcs_inv xs ys (fold (\<lambda>j d. d[i := (d ! i)[j := lcs_cell xs ys d i j]]) [1..<Suc k] dp) i (Suc k)"
proof (induction k)
  case 0
  then show ?case using inv by simp
next
  case (Suc k)
  then have IH: "lcs_inv xs ys (fold (\<lambda>j d. d[i := (d ! i)[j := lcs_cell xs ys d i j]]) [1..<Suc k] dp) i (Suc k)"
    by simp
  have "[1..<Suc (Suc k)] = [1..<Suc k] @ [Suc k]" by simp
  then show ?case
    using lcs_inv_step [OF IH i, of ] Suc.prems by (simp del: upt_Suc)
qed

lemma lcs_inv_next_row:
  assumes "lcs_inv xs ys dp i (Suc (length ys))"
  shows "lcs_inv xs ys dp (Suc i) 1"
  unfolding lcs_inv_def
proof (intro conjI allI impI)
  fix a b assume h: "a < Suc i \<and> a \<le> length xs \<and> b \<le> length ys"
  show "dp ! a ! b = int (lcs_len xs ys a b)"
  proof (cases "a = i")
    case True
    then show ?thesis using assms h unfolding lcs_inv_def by (simp add: less_Suc_eq_le)
  next
    case False
    with h have "a < i" by simp
    then show ?thesis using assms h unfolding lcs_inv_def by blast
  qed
next
  fix b assume "b < 1 \<and> b \<le> length ys \<and> Suc i \<le> length xs"
  then show "dp ! Suc i ! b = int (lcs_len xs ys (Suc i) b)"
    using assms unfolding lcs_inv_def by simp
qed (use assms in \<open>auto simp: lcs_inv_def\<close>)

lemma lcs_fill_row_inv:
  assumes "lcs_inv xs ys dp i 1" "1 \<le> i" "i \<le> length xs"
  shows "lcs_inv xs ys (lcs_fill_row xs ys i dp) (Suc i) 1"
  unfolding lcs_fill_row_def
  by (rule lcs_inv_next_row) (rule lcs_inv_inner [OF assms order_refl])

lemma lcs_inv_outer:
  "k \<le> length xs \<Longrightarrow>
   lcs_inv xs ys (fold (lcs_fill_row xs ys) [1..<Suc k]
      (replicate (Suc (length xs)) (replicate (Suc (length ys)) 0))) (Suc k) 1"
proof (induction k)
  case 0
  then show ?case using lcs_inv_init by simp
next
  case (Suc k)
  then have IH: "lcs_inv xs ys (fold (lcs_fill_row xs ys) [1..<Suc k]
      (replicate (Suc (length xs)) (replicate (Suc (length ys)) 0))) (Suc k) 1"
    by simp
  show ?case
    using lcs_fill_row_inv [OF IH] Suc.prems by (simp del: upt_Suc replicate_Suc add: upt_Suc_append)
qed

lemma lcs_table_correct:
  assumes "i \<le> length xs" "j \<le> length ys"
  shows "lcs_table xs ys ! i ! j = int (lcs_len xs ys i j)"
proof -
  have "lcs_inv xs ys (lcs_table xs ys) (Suc (length xs)) 1"
    unfolding lcs_table_def by (rule lcs_inv_outer) simp
  then show ?thesis using assms unfolding lcs_inv_def by auto
qed


lemma lcs_len_le: "lcs_len xs ys i j \<le> min i j"
  by (induction xs ys i j rule: lcs_len.induct) auto

lemma lcs_len_common_prefix:
  "\<forall>k < min i j. xs ! k = ys ! k \<Longrightarrow> lcs_len xs ys i j = min i j"
proof (induction xs ys i j rule: lcs_len.induct)
  case (1 xs ys j)
  then show ?case by simp
next
  case (2 xs ys i)
  then show ?case by simp
next
  case (3 xs ys i j)
  show ?case
  proof (cases "xs ! i = ys ! j")
    case True
    have "\<forall>k < min i j. xs ! k = ys ! k" using "3.prems" by auto
    with "3.IH"(1) [OF True] True show ?thesis by simp
  next
    case False
    have ne: "i \<noteq> j"
    proof
      assume "i = j"
      then have "xs ! i = ys ! j" using "3.prems" by simp
      with False show False by simp
    qed
    show ?thesis
    proof (cases "i < j")
      case True
      have a: "lcs_len xs ys (Suc i) j = Suc i"
        using "3.IH"(3) [OF False] "3.prems" True by simp
      have b: "lcs_len xs ys i (Suc j) \<le> i"
        using lcs_len_le [of xs ys i "Suc j"] by simp
      show ?thesis using False a b True by simp
    next
      case False
      with ne have ji: "j < i" by simp
      have a: "lcs_len xs ys i (Suc j) = Suc j"
        using "3.IH"(2) [OF \<open>xs ! i \<noteq> ys ! j\<close>] "3.prems" ji by simp
      have b: "lcs_len xs ys (Suc i) j \<le> j"
        using lcs_len_le [of xs ys "Suc i" j] by simp
      show ?thesis using \<open>xs ! i \<noteq> ys ! j\<close> a b ji by simp
    qed
  qed
qed

lemma lcs_backtrace_acc:
  "lcs_backtrace xs ys dp i j acc = acc @ lcs_backtrace xs ys dp i j []"
proof (induction "i + j" arbitrary: i j acc rule: less_induct)
  case less
  show ?case
  proof (cases "i > 0 \<and> j > 0")
    case False
    then have "\<And>a. lcs_backtrace xs ys dp i j a = a"
      by (subst lcs_backtrace.simps) auto
    then show ?thesis by simp
  next
    case True
    have d: "\<And>a. lcs_backtrace xs ys dp (i - 1) (j - 1) a = a @ lcs_backtrace xs ys dp (i - 1) (j - 1) []"
      by (rule less) (use True in simp)
    have u: "\<And>a. lcs_backtrace xs ys dp (i - 1) j a = a @ lcs_backtrace xs ys dp (i - 1) j []"
      by (rule less) (use True in simp)
    have l: "\<And>a. lcs_backtrace xs ys dp i (j - 1) a = a @ lcs_backtrace xs ys dp i (j - 1) []"
      by (rule less) (use True in simp)
    have step: "\<And>a. lcs_backtrace xs ys dp i j a =
        (if xs ! (i - 1) = ys ! (j - 1) then
           lcs_backtrace xs ys dp (i - 1) (j - 1) (a @ [(i - 1, j - 1)])
         else if dp ! (i - 1) ! j > dp ! i ! (j - 1) then
           lcs_backtrace xs ys dp (i - 1) j a
         else lcs_backtrace xs ys dp i (j - 1) a)"
      using True by (subst lcs_backtrace.simps) simp
    show ?thesis
    proof (cases "xs ! (i - 1) = ys ! (j - 1)")
      case m: True
      show ?thesis
        using m d [of "acc @ [(i - 1, j - 1)]"] d [of "[(i - 1, j - 1)]"]
        by (simp add: step [of acc] step [of "[]"])
    next
      case nm: False
      show ?thesis
      proof (cases "dp ! (i - 1) ! j > dp ! i ! (j - 1)")
        case True
        show ?thesis
          using nm True u [of acc]
          by (simp add: step [of acc] step [of "[]"])
      next
        case False
        show ?thesis
          using nm False l [of acc]
          by (simp add: step [of acc] step [of "[]"])
      qed
    qed
  qed
qed


lemma lcs_backtrace_stop:
  "\<not> (i > 0 \<and> j > 0) \<Longrightarrow> lcs_backtrace xs ys dp i j acc = acc"
  by (subst lcs_backtrace.simps) auto

lemma lcs_backtrace_match:
  assumes "xs ! i = ys ! j"
  shows "lcs_backtrace xs ys dp (Suc i) (Suc j) [] = (i, j) # lcs_backtrace xs ys dp i j []"
proof -
  have "lcs_backtrace xs ys dp (Suc i) (Suc j) [] = lcs_backtrace xs ys dp i j [(i, j)]"
    using assms by (subst lcs_backtrace.simps) simp
  also have "\<dots> = [(i, j)] @ lcs_backtrace xs ys dp i j []"
    by (rule lcs_backtrace_acc)
  finally show ?thesis by simp
qed

lemma lcs_backtrace_up:
  assumes "xs ! i \<noteq> ys ! j" "dp ! i ! Suc j > dp ! Suc i ! j"
  shows "lcs_backtrace xs ys dp (Suc i) (Suc j) [] = lcs_backtrace xs ys dp i (Suc j) []"
  using assms by (subst lcs_backtrace.simps) simp

lemma lcs_backtrace_left:
  assumes "xs ! i \<noteq> ys ! j" "\<not> dp ! i ! Suc j > dp ! Suc i ! j"
  shows "lcs_backtrace xs ys dp (Suc i) (Suc j) [] = lcs_backtrace xs ys dp (Suc i) j []"
  using assms by (subst lcs_backtrace.simps) simp

lemma lcs_backtrace_count:
  assumes "i \<le> length xs" "j \<le> length ys"
  shows "length (lcs_backtrace xs ys (lcs_table xs ys) i j []) = lcs_len xs ys i j
         \<and> (\<forall>b \<in> snd ` set (lcs_backtrace xs ys (lcs_table xs ys) i j []). b < j)
         \<and> distinct (map snd (lcs_backtrace xs ys (lcs_table xs ys) i j []))"
  using assms
proof (induction "i + j" arbitrary: i j rule: less_induct)
  case less
  let ?T = "lcs_table xs ys"
  show ?case
  proof (cases "i > 0 \<and> j > 0")
    case False
    then have "lcs_backtrace xs ys ?T i j [] = []" by (rule lcs_backtrace_stop)
    moreover have "lcs_len xs ys i j = 0" using False by (cases i) auto
    ultimately show ?thesis by simp
  next
    case True
    then obtain i' j' where ij: "i = Suc i'" "j = Suc j'"
      by (metis Suc_pred)
    have le: "i' \<le> length xs" "j' \<le> length ys" using less.prems ij by auto
    show ?thesis
    proof (cases "xs ! i' = ys ! j'")
      case m: True
      have e: "lcs_backtrace xs ys ?T i j [] = (i', j') # lcs_backtrace xs ys ?T i' j' []"
        unfolding ij by (rule lcs_backtrace_match [OF m])
      have "i' + j' < i + j" using ij by simp
      from less.hyps [OF this le]
      have IH: "length (lcs_backtrace xs ys ?T i' j' []) = lcs_len xs ys i' j'"
        "\<forall>b \<in> snd ` set (lcs_backtrace xs ys ?T i' j' []). b < j'"
        "distinct (map snd (lcs_backtrace xs ys ?T i' j' []))"
        by blast+
      have l: "lcs_len xs ys i j = Suc (lcs_len xs ys i' j')" using m ij by simp
      show ?thesis unfolding e l using IH ij by force
    next
      case nm: False
      have t1: "?T ! i' ! j = int (lcs_len xs ys i' j)"
        by (rule lcs_table_correct [OF le(1) less.prems(2)])
      have t2: "?T ! i ! j' = int (lcs_len xs ys i j')"
        by (rule lcs_table_correct [OF less.prems(1) le(2)])
      show ?thesis
      proof (cases "?T ! i' ! j > ?T ! i ! j'")
        case up: True
        have e: "lcs_backtrace xs ys ?T i j [] = lcs_backtrace xs ys ?T i' j []"
          using lcs_backtrace_up [OF nm, of ?T] up unfolding ij by simp
        have l: "lcs_len xs ys i j = lcs_len xs ys i' j"
          using nm ij up t1 t2 by simp
        have "i' + j < i + j" using ij by simp
        from less.hyps [OF this le(1) less.prems(2)]
        show ?thesis unfolding e l by blast
      next
        case left: False
        have e: "lcs_backtrace xs ys ?T i j [] = lcs_backtrace xs ys ?T i j' []"
          using lcs_backtrace_left [OF nm, of ?T] left unfolding ij by simp
        have l: "lcs_len xs ys i j = lcs_len xs ys i j'"
          using nm ij left t1 t2 by simp
        have "i + j' < i + j" using ij by simp
        from less.hyps [OF this less.prems(1) le(2)]
        have IH: "length (lcs_backtrace xs ys ?T i j' []) = lcs_len xs ys i j'"
          "\<forall>b \<in> snd ` set (lcs_backtrace xs ys ?T i j' []). b < j'"
          "distinct (map snd (lcs_backtrace xs ys ?T i j' []))"
          by blast+
        show ?thesis unfolding e l using IH ij by force
      qed
    qed
  qed
qed

lemma full_range:
  assumes "length r = p" "\<forall>b \<in> snd ` set r. b < p" "distinct (map snd r)"
  shows "snd ` set r = {0..<p}"
proof -
  have "card (snd ` set r) = p"
    using assms(1,3) distinct_card [of "map snd r"] by simp
  moreover have "snd ` set r \<subseteq> {0..<p}" using assms(2) by auto
  ultimately show ?thesis
    by (intro card_subset_eq) auto
qed

lemma lcs_backtrace_suffix:
  assumes "\<forall>k. p \<le> k \<and> k < p + q \<longrightarrow> xs ! k = ys ! k"
  shows "snd ` set (lcs_backtrace xs ys dp (p + q) (p + q) [])
         = {p..<p + q} \<union> snd ` set (lcs_backtrace xs ys dp p p [])"
  using assms
proof (induction q)
  case 0
  then show ?case by simp
next
  case (Suc q)
  have m: "xs ! (p + q) = ys ! (p + q)" using Suc.prems by simp
  have e: "lcs_backtrace xs ys dp (p + Suc q) (p + Suc q) []
           = (p + q, p + q) # lcs_backtrace xs ys dp (p + q) (p + q) []"
    using lcs_backtrace_match [OF m, of dp] by simp
  have IH: "snd ` set (lcs_backtrace xs ys dp (p + q) (p + q) [])
         = {p..<p + q} \<union> snd ` set (lcs_backtrace xs ys dp p p [])"
    using Suc by simp
  show ?case unfolding e using IH by auto
qed

lemma single_replacement_matches:
  assumes neq: "h \<noteq> h'"
  shows "snd ` set (compute_lcs (A @ [h] @ B) (A @ [h'] @ B))
         = {0..<length A} \<union> {Suc (length A)..<Suc (length A) + length B}"
proof -
  let ?xs = "A @ [h] @ B" and ?ys = "A @ [h'] @ B"
  let ?p = "length A"
  let ?T = "lcs_table ?xs ?ys"
  have suffix: "\<forall>k. Suc ?p \<le> k \<and> k < Suc ?p + length B \<longrightarrow> ?xs ! k = ?ys ! k"
    by (auto simp: nth_append)
  have prefix: "\<forall>k < ?p. ?xs ! k = ?ys ! k"
    by (auto simp: nth_append)
  have s1: "snd ` set (lcs_backtrace ?xs ?ys ?T (Suc ?p + length B) (Suc ?p + length B) [])
        = {Suc ?p..<Suc ?p + length B} \<union> snd ` set (lcs_backtrace ?xs ?ys ?T (Suc ?p) (Suc ?p) [])"
    by (rule lcs_backtrace_suffix [OF suffix])
  have nm: "?xs ! ?p \<noteq> ?ys ! ?p" using neq by (simp add: nth_append)
  have t1: "?T ! ?p ! Suc ?p = int (lcs_len ?xs ?ys ?p (Suc ?p))"
    by (rule lcs_table_correct) auto
  have t2: "?T ! Suc ?p ! ?p = int (lcs_len ?xs ?ys (Suc ?p) ?p)"
    by (rule lcs_table_correct) auto
  have l1: "lcs_len ?xs ?ys ?p (Suc ?p) = ?p"
    using lcs_len_common_prefix [of ?p "Suc ?p" ?xs ?ys] prefix by simp
  have l2: "lcs_len ?xs ?ys (Suc ?p) ?p = ?p"
    using lcs_len_common_prefix [of "Suc ?p" ?p ?xs ?ys] prefix by simp
  have s2: "lcs_backtrace ?xs ?ys ?T (Suc ?p) (Suc ?p) [] = lcs_backtrace ?xs ?ys ?T (Suc ?p) ?p []"
    by (rule lcs_backtrace_left [OF nm]) (use t1 t2 l1 l2 in simp)
  have c: "length (lcs_backtrace ?xs ?ys ?T (Suc ?p) ?p []) = ?p
         \<and> (\<forall>b \<in> snd ` set (lcs_backtrace ?xs ?ys ?T (Suc ?p) ?p []). b < ?p)
         \<and> distinct (map snd (lcs_backtrace ?xs ?ys ?T (Suc ?p) ?p []))"
    using lcs_backtrace_count [of "Suc ?p" ?xs ?p ?ys] l2 by simp
  have s3: "snd ` set (lcs_backtrace ?xs ?ys ?T (Suc ?p) ?p []) = {0..<?p}"
    using c by (intro full_range) blast+
  have len: "length ?xs = Suc ?p + length B" "length ?ys = Suc ?p + length B" by simp_all
  show ?thesis
    unfolding compute_lcs_def set_rev len s1 s2 s3 by auto
qed

lemma filter_all_but_one:
  assumes "p < n"
  shows "filter (\<lambda>i. i \<notin> {0..<p} \<union> {Suc p..<n}) [0..<n] = [p]"
proof -
  have "[0..<n] = [0..<p] @ [p..<n]"
    using upt_add_eq_append [of 0 p "n - p"] assms by simp
  also have "[p..<n] = p # [Suc p..<n]"
    using assms by (rule upt_conv_Cons)
  finally have "[0..<n] = [0..<p] @ [p] @ [Suc p..<n]" by simp
  then show ?thesis by (simp add: filter_empty_conv del: upt_Suc)
qed

lemma single_hash_change_localised:
  assumes "line_hashes old_snap = A @ [h] @ B"
      and "line_hashes new_snap = A @ [h'] @ B"
      and "h \<noteq> h'"
  shows "get_changed_lines old_snap new_snap = [int (length A) + 1]"
proof -
  have m: "set (map snd (compute_lcs (A @ [h] @ B) (A @ [h'] @ B)))
         = {0..<length A} \<union> {Suc (length A)..<Suc (length A) + length B}"
    using single_replacement_matches [OF assms(3), of A B] by simp
  have f: "filter (\<lambda>i. i \<notin> {0..<length A} \<union> {Suc (length A)..<Suc (length A) + length B})
             [0..<Suc (length A) + length B] = [length A]"
    by (rule filter_all_but_one) simp
  show ?thesis
    unfolding get_changed_lines_def Let_def assms(1,2) m using f by simp
qed

lemmas hash_eval = compute_line_hash_def compute_hash_def fnv1a_hash_def char_to_uint64_def
  hex_of_nat.simps setw_fill_def hex_digit_def is_blank_def

text \<open>
  C2, as the code has it. The snapshots hold the hashes of the lines with the white space at
  both ends stripped. When the contents are the same lines except for the line at position
  \<open>p = length A + 1\<close>, and the old and the new line there have different line hashes, then
  \<open>get_changed_lines\<close> returns exactly \<open>[p]\<close>.
\<close>

theorem C2_single_line_change_localised:
  assumes "split_lines old_content = A @ [l] @ B"
      and "split_lines new_content = A @ [l'] @ B"
      and "compute_line_hash cs l \<noteq> compute_line_hash cs l'"
  shows "get_changed_lines (create_snapshot cs t_old fp old_content)
           (create_snapshot cs t_new fp new_content) = [int (length A) + 1]"
proof -
  have o: "line_hashes (create_snapshot cs t_old fp old_content)
        = map (compute_line_hash cs) A @ [compute_line_hash cs l] @ map (compute_line_hash cs) B"
    by (simp add: create_snapshot_def assms(1))
  have n: "line_hashes (create_snapshot cs t_new fp new_content)
        = map (compute_line_hash cs) A @ [compute_line_hash cs l'] @ map (compute_line_hash cs) B"
    by (simp add: create_snapshot_def assms(2))
  show ?thesis
    using single_hash_change_localised [OF o n assms(3)] by simp
qed

text \<open>Scenario S2 of the specification: line 2 of three, \<open>y\<close> replaced by \<open>Y\<close>.\<close>

theorem C2_witness:
  "split_lines content_xyz = [''x''] @ [''y''] @ [''z'']
   \<and> split_lines content_xYz = [''x''] @ [''Y''] @ [''z'']
   \<and> compute_line_hash True ''y'' \<noteq> compute_line_hash True ''Y''
   \<and> get_changed_lines (create_snapshot True 0 ''f'' content_xyz)
        (create_snapshot True 0 ''f'' content_xYz) = [2]"
proof -
  have a: "split_lines content_xyz = [''x''] @ [''y''] @ [''z'']"
    by (simp add: split_lines_def content_xyz_def)
  have b: "split_lines content_xYz = [''x''] @ [''Y''] @ [''z'']"
    by (simp add: split_lines_def content_xYz_def)
  have c: "compute_line_hash True ''y'' \<noteq> compute_line_hash True ''Y''"
    by (simp add: hash_eval)
  show ?thesis
    using C2_single_line_change_localised [OF a b c, of 0 "''f''" 0] a b c by simp
qed

text \<open>
  C2 as stated fails: replacing line 2, \<open>y\<close>, by the different line \<open>y\<close> with a leading
  blank changes no line hash, and no line is reported.
\<close>

theorem C2_whitespace_counterexample:
  "split_lines content_xyz = [''x''] @ [''y''] @ [''z'']
   \<and> split_lines content_x_yz = [''x''] @ ['' y''] @ [''z'']
   \<and> ''y'' \<noteq> '' y''
   \<and> get_changed_lines (create_snapshot True 0 ''f'' content_xyz)
        (create_snapshot True 0 ''f'' content_x_yz) = []
   \<and> get_changed_lines (create_snapshot False 0 ''f'' content_xyz)
        (create_snapshot False 0 ''f'' content_x_yz) = []"
proof -
  have a: "split_lines content_xyz = [''x''] @ [''y''] @ [''z'']"
    by (simp add: split_lines_def content_xyz_def)
  have b: "split_lines content_x_yz = [''x''] @ ['' y''] @ [''z'']"
    by (simp add: split_lines_def content_x_yz_def)
  have h: "line_hashes (create_snapshot True 0 ''f'' content_xyz)
             = [''af63f54c86021707'', ''af63f44c86021554'', ''af63f74c86021a6d'']"
          "line_hashes (create_snapshot True 0 ''f'' content_x_yz)
             = [''af63f54c86021707'', ''af63f44c86021554'', ''af63f74c86021a6d'']"
          "line_hashes (create_snapshot False 0 ''f'' content_xyz)
             = [''af63f54c86021707'', ''af63f44c86021554'', ''af63f74c86021a6d'']"
          "line_hashes (create_snapshot False 0 ''f'' content_x_yz)
             = [''af63f54c86021707'', ''af63f44c86021554'', ''af63f74c86021a6d'']"
    by (simp_all add: create_snapshot_def content_xyz_def content_x_yz_def split_lines_def hash_eval)
  have t: "get_changed_lines (create_snapshot True 0 ''f'' content_xyz)
             (create_snapshot True 0 ''f'' content_x_yz) = []"
    unfolding get_changed_lines_def h by code_simp
  have f: "get_changed_lines (create_snapshot False 0 ''f'' content_xyz)
             (create_snapshot False 0 ''f'' content_x_yz) = []"
    unfolding get_changed_lines_def h by code_simp
  show ?thesis
    using a b t f by simp
qed


subsection \<open>IncrementalEngine: combined output, and the engines of the examples\<close>

lemmas um_eval = register_units_def get_units_by_file_def file_ids_def UnitManager_new_def
  add_unit_def remove_unit_def get_unit_def modify_unit_def mk_unit_def List.map_filter_def
  AList.delete_eq

text \<open>
  C3. With the first unit of the file without a fragment and the second with the fragment B,
  \<open>get_combined_output\<close> returns a newline followed by B: the separator is written whenever
  the index of the unit is positive, not whenever a fragment was written before. The claim
  asks for B alone.
\<close>

theorem C3_leading_separator:
  "fst (get_combined_output eng_two_lines ''f'') = CHR 0x0A # ''B''
   \<and> combined_output_spec eng_two_lines ''f'' = ''B''"
  by (simp add: get_combined_output_def combined_output_spec_def unit_fragment_def
      eng_two_lines_def mark_compiled_def IncrementalEngine_new_def um_eval
      CompilationCache_put_def is_valid_def CompilationCache_get_def)

lemma units_to_compile_install [simp]:
  "units_to_compile (install_snapshot eng fp s) = units_to_compile eng"
  by (simp add: install_snapshot_def Let_def)

lemma eng_one_file_units:
  "eng_units eng_one_file =
     \<lparr>um_units = [(''g1'', (mk_unit ''g1'' ''g'' 1 1 LINE ''hg'')\<lparr>unit_state := ADDED\<rparr>),
                  (''f1'', mk_unit ''f1'' ''f'' 1 1 LINE ''h1''),
                  (''f2'', mk_unit ''f2'' ''f'' 2 2 LINE ''h2'')],
      um_file_units = [(''g'', [''g1'']), (''f'', [''f1'', ''f2''])]\<rparr>"
  "units_to_compile eng_one_file = [''g1'']"
  "map_of (eng_snapshots eng_one_file) ''f'' = None"
  by (simp_all add: eng_one_file_def update_source_def IncrementalEngine_new_def um_eval
      install_snapshot_def)

lemma eng_two_files_eq: "eng_two_files = snd (update_source True 0 eng_one_file ''f'' content_xyz)"
  by (simp add: eng_two_files_def eng_one_file_def Let_def)

lemma eng_two_files_units:
  "eng_units eng_two_files =
     \<lparr>um_units = [(''g1'', (mk_unit ''g1'' ''g'' 1 1 LINE ''hg'')\<lparr>unit_state := ADDED\<rparr>),
                  (''f1'', (mk_unit ''f1'' ''f'' 1 1 LINE ''h1'')\<lparr>unit_state := ADDED\<rparr>),
                  (''f2'', (mk_unit ''f2'' ''f'' 2 2 LINE ''h2'')\<lparr>unit_state := ADDED\<rparr>)],
      um_file_units = [(''g'', [''g1'']), (''f'', [''f1'', ''f2''])]\<rparr>"
  "units_to_compile eng_two_files = [''g1'', ''f1'', ''f2'']"
  "\<exists>old. map_of (eng_snapshots eng_two_files) ''f'' = Some old
         \<and> line_hashes old = line_hashes (create_snapshot True 0 ''f'' content_xyz)"
  unfolding eng_two_files_eq
  by (simp_all add: update_source_def eng_one_file_units install_snapshot_def um_eval
      AList.update_conv')

subsection \<open>IncrementalEngine: expansion to the enclosing structures\<close>

lemma get_unit_modify:
  "get_unit (modify_unit um k f) k' = (if k' = k then map_option f (get_unit um k) else get_unit um k')"
  by (cases "get_unit um k") (auto simp: modify_unit_def get_unit_def update_conv')

lemma file_units_modify [simp]: "um_file_units (modify_unit um k f) = um_file_units um"
  by (simp add: modify_unit_def split: option.splits)

lemma core_mark_affected [simp]: "core (mark_affected u) = core u"
  by (simp add: core_def mark_affected_def)

lemma mark_affected_idem [simp]: "mark_affected (mark_affected u) = mark_affected u"
  by (simp add: mark_affected_def)

lemma same_core_refl [simp]: "same_core um um"
  by (simp add: same_core_def)

lemma same_core_modify: "same_core um1 um2 \<Longrightarrow> same_core (modify_unit um1 k mark_affected) um2"
  unfolding same_core_def
  by (auto simp: get_unit_modify option.map_comp comp_def)

lemma same_core_fold:
  "same_core um1 um2 \<Longrightarrow> same_core (fold (\<lambda>k m. modify_unit m k mark_affected) ks um1) um2"
  by (induction ks arbitrary: um1) (simp_all add: same_core_modify)

lemma get_unit_fold_marks:
  "get_unit (fold (\<lambda>k m. modify_unit m k mark_affected) ks um) k'
     = (if k' \<in> set ks then map_option mark_affected (get_unit um k') else get_unit um k')"
proof (induction ks arbitrary: um)
  case Nil
  show ?case by simp
next
  case (Cons k ks)
  show ?case
    by (cases "get_unit um k'") (auto simp: Cons.IH get_unit_modify)
qed

lemma file_units_fold_marks [simp]:
  "um_file_units (fold (\<lambda>k m. modify_unit m k mark_affected) ks um) = um_file_units um"
  by (induction ks arbitrary: um) simp_all

lemma set_fold_set_insert: "set (fold set_insert xs ex) = set ex \<union> set xs"
  by (induction xs arbitrary: ex) (auto simp: set_insert_def)

lemma set_set_of_vector: "set (set_of_vector xs) = set xs"
  by (simp add: set_of_vector_def set_fold_set_insert)

lemma expand_parents_fold:
  "expand_parents i unit ps (um, ex)
     = (fold (\<lambda>k m. modify_unit m k mark_affected)
          (map fst (filter (\<lambda>p. is_container i unit (snd p)) ps)) um,
        fold set_insert (map (\<lambda>p. cu_id (snd p)) (filter (\<lambda>p. is_container i unit (snd p)) ps)) ex)"
  by (induction ps arbitrary: um ex) (auto simp: is_container_def)

lemma is_container_core: "is_container i (core unit) (core parent) = is_container i unit parent"
  by (simp add: is_container_def core_def)


lemma start_line_core [simp]: "start_line (core u) = start_line u"
  by (simp add: core_def)

lemma cu_id_core [simp]: "cu_id (core u) = cu_id u"
  by (simp add: core_def)

lemma map_core_insort_key:
  "map (apsnd core) (insort_key (\<lambda>p. start_line (snd p)) x xs)
     = insort_key (\<lambda>p. start_line (snd p)) (apsnd core x) (map (apsnd core) xs)"
  by (induction xs) simp_all

lemma map_core_sort_key:
  "map (apsnd core) (sort_key (\<lambda>p. start_line (snd p)) xs)
     = sort_key (\<lambda>p. start_line (snd p)) (map (apsnd core) xs)"
  by (induction xs) (simp_all add: map_core_insort_key)

lemma map_filter_core:
  "map (apsnd core) (List.map_filter (\<lambda>i. map_option (Pair i) (get_unit um i)) ids)
     = List.map_filter (\<lambda>i. map_option (Pair i) (map_option core (get_unit um i))) ids"
  by (induction ids) (auto simp: List.map_filter_simps split: option.splits)

lemma get_units_by_file_core:
  assumes "same_core um1 um2"
  shows "map (apsnd core) (get_units_by_file um1 fp) = map (apsnd core) (get_units_by_file um2 fp)"
proof -
  have ids: "file_ids um1 fp = file_ids um2 fp"
    using assms by (simp add: same_core_def file_ids_def)
  have look: "\<And>i. map_option core (get_unit um1 i) = map_option core (get_unit um2 i)"
    using assms by (simp add: same_core_def)
  show ?thesis
    unfolding get_units_by_file_def
    by (simp only: map_core_sort_key map_filter_core ids look)
qed

lemma parent_keys_core:
  "parent_keys um fp i unit
     = map fst (filter (\<lambda>p. is_container i (core unit) (snd p))
                  (map (apsnd core) (get_units_by_file um fp)))"
  by (simp add: parent_keys_def filter_map comp_def is_container_core)

lemma parent_ids_core:
  "parent_ids um fp i unit
     = map (\<lambda>p. cu_id (snd p)) (filter (\<lambda>p. is_container i (core unit) (snd p))
                  (map (apsnd core) (get_units_by_file um fp)))"
  by (simp add: parent_ids_def filter_map comp_def is_container_core)

lemma parents_same_core:
  assumes "same_core um1 um2" "core u1 = core u2"
  shows "parent_keys um1 fp i u1 = parent_keys um2 fp i u2"
    and "parent_ids um1 fp i u1 = parent_ids um2 fp i u2"
  unfolding parent_keys_core parent_ids_core
  by (simp_all only: get_units_by_file_core [OF assms(1)] assms(2))

lemma cu_type_core: "core u1 = core u2 \<Longrightarrow> cu_type u1 = cu_type u2"
  by (metis (no_types) CompilationUnit.select_convs(5) CompilationUnit.surjective
      CompilationUnit.update_convs(10,13) core_def)

lemma expand_ids_fold:
  "same_core um1 um0 \<Longrightarrow>
   expand_ids fp ids (um1, ex)
     = (fold (\<lambda>k m. modify_unit m k mark_affected) (all_parent_keys um0 fp ids) um1,
        fold set_insert (all_parent_ids um0 fp ids) ex)"
proof (induction ids arbitrary: um1 ex)
  case Nil
  show ?case by (simp add: all_parent_keys_def all_parent_ids_def)
next
  case (Cons i ids)
  have look: "map_option core (get_unit um1 i) = map_option core (get_unit um0 i)"
    using Cons.prems by (simp add: same_core_def)
  show ?case
  proof (cases "get_unit um1 i")
    case None
    then have n0: "get_unit um0 i = None" using look by simp
    show ?thesis
      using None n0 Cons.IH [OF Cons.prems]
      by (simp add: all_parent_keys_def all_parent_ids_def)
  next
    case (Some u1)
    then obtain u0 where s0: "get_unit um0 i = Some u0" and c: "core u1 = core u0"
      using look by (cases "get_unit um0 i") auto
    have t: "cu_type u1 = cu_type u0" by (rule cu_type_core [OF c])
    show ?thesis
    proof (cases "is_structure (cu_type u0)")
      case True
      then show ?thesis
        using Some s0 t Cons.IH [OF Cons.prems]
        by (simp add: all_parent_keys_def all_parent_ids_def)
    next
      case False
      let ?um2 = "fold (\<lambda>k m. modify_unit m k mark_affected) (parent_keys um0 fp i u0) um1"
      let ?ex2 = "fold set_insert (parent_ids um0 fp i u0) ex"
      have e: "expand_parents i u1 (get_units_by_file um1 fp) (um1, ex) = (?um2, ?ex2)"
        unfolding expand_parents_fold
        using parents_same_core [OF Cons.prems c, of fp i]
        by (simp add: parent_keys_def parent_ids_def)
      have sc: "same_core ?um2 um0" by (rule same_core_fold [OF Cons.prems])
      have k: "all_parent_keys um0 fp (i # ids) = parent_keys um0 fp i u0 @ all_parent_keys um0 fp ids"
        and d: "all_parent_ids um0 fp (i # ids) = parent_ids um0 fp i u0 @ all_parent_ids um0 fp ids"
        using s0 False by (simp_all add: all_parent_keys_def all_parent_ids_def)
      show ?thesis
        using Some t False e Cons.IH [OF sc] by (simp add: k d)
    qed
  qed
qed

lemma expand_to_boundaries_fold:
  "expand_to_boundaries um fp ids
     = (fold (\<lambda>k m. modify_unit m k mark_affected) (all_parent_keys um fp ids) um,
        fold set_insert (all_parent_ids um fp ids) (set_of_vector ids))"
  unfolding expand_to_boundaries_def by (rule expand_ids_fold) simp

lemma set_all_parent_ids:
  "set (all_parent_ids um fp ids)
     = {cu_id parent | i unit k parent.
          i \<in> set ids \<and> get_unit um i = Some unit \<and> \<not> is_structure (cu_type unit)
          \<and> (k, parent) \<in> set (get_units_by_file um fp) \<and> is_container i unit parent}"
  unfolding all_parent_ids_def parent_ids_def
  by (auto split: option.splits if_splits) (force split: option.splits)+

lemma set_all_parent_keys:
  "set (all_parent_keys um fp ids)
     = {k | i unit k parent.
          i \<in> set ids \<and> get_unit um i = Some unit \<and> \<not> is_structure (cu_type unit)
          \<and> (k, parent) \<in> set (get_units_by_file um fp) \<and> is_container i unit parent}"
  unfolding all_parent_keys_def parent_keys_def
  by (auto split: option.splits if_splits) (force split: option.splits)+


text \<open>
  What \<open>expand_to_boundaries\<close> computes for any list of ids, whatever the files of the
  units they name: the ids after are the ids before and the id of each unit \<open>parent\<close>
  listed under \<open>fp\<close> for which some id \<open>i\<close> before names a stored unit that is not a
  Function or Class and \<open>is_container i unit parent\<close> holds. The units stored under the keys
  of these parents are marked, every other unit is as before.
\<close>

lemma expand_to_boundaries_all_ids:
  "set (snd (expand_to_boundaries um fp ids))
     = set ids \<union>
       {cu_id parent | i unit k parent.
          i \<in> set ids \<and> get_unit um i = Some unit \<and> \<not> is_structure (cu_type unit)
          \<and> (k, parent) \<in> set (get_units_by_file um fp) \<and> is_container i unit parent}
   \<and> (\<forall>k'. get_unit (fst (expand_to_boundaries um fp ids)) k'
          = (if k' \<in> {k | i unit k parent.
                         i \<in> set ids \<and> get_unit um i = Some unit
                         \<and> \<not> is_structure (cu_type unit)
                         \<and> (k, parent) \<in> set (get_units_by_file um fp)
                         \<and> is_container i unit parent}
             then map_option mark_affected (get_unit um k') else get_unit um k'))
   \<and> um_file_units (fst (expand_to_boundaries um fp ids)) = um_file_units um"
  unfolding expand_to_boundaries_fold fst_conv snd_conv
  by (simp only: set_fold_set_insert set_set_of_vector set_all_parent_ids
      get_unit_fold_marks set_all_parent_keys file_units_fold_marks simp_thms)

lemma in_get_units_by_file:
  "(k, u) \<in> set (get_units_by_file um fp) \<longleftrightarrow> k \<in> set (file_ids um fp) \<and> get_unit um k = Some u"
  unfolding get_units_by_file_def List.map_filter_def
  by (auto simp: image_iff)

lemma all_parent_keys_structures:
  assumes "\<forall>i\<in>set ids. \<forall>unit. get_unit um i = Some unit \<longrightarrow> is_structure (cu_type unit)"
  shows "all_parent_keys um fp ids = []"
  using assms unfolding all_parent_keys_def
  by (auto split: option.splits)

text \<open>
  C4. The affected units of the updated file \<open>fp\<close> and the Function and Class units of the
  same file; \<open>is_container i unit parent\<close> says that \<open>parent\<close> is another unit than \<open>i\<close>, of
  type Function or Class, whose line range covers that of \<open>unit\<close>, equal bounds included.

  \<^item> For every id \<open>i\<close> of the list that names a unit of the file which is not a Function or
    Class, every container of it among the units of the file is added to the list and the
    unit stored there is marked Affected with an invalid cache.
  \<^item> When all units named by the list that are not a Function or Class are units of the
    file, nothing else is added and nothing else is marked: a unit of the file is added
    exactly when it is a container of such a unit.
  \<^item> When every unit named by the list is a Function or Class, nothing is added and no unit
    is written.

  Ids of units of other files in the list are left out of the statement.
\<close>

theorem C4_expand_to_boundaries:
  "(\<forall>i unit k parent.
      i \<in> set ids \<and> (i, unit) \<in> set (get_units_by_file um fp) \<and> \<not> is_structure (cu_type unit)
      \<and> (k, parent) \<in> set (get_units_by_file um fp) \<and> is_container i unit parent
      \<longrightarrow> cu_id parent \<in> set (snd (expand_to_boundaries um fp ids))
          \<and> get_unit (fst (expand_to_boundaries um fp ids)) k = Some (mark_affected parent))
   \<and> ((\<forall>i\<in>set ids. \<forall>unit. get_unit um i = Some unit \<and> \<not> is_structure (cu_type unit)
                         \<longrightarrow> i \<in> set (file_ids um fp))
      \<longrightarrow> set (snd (expand_to_boundaries um fp ids))
            = set ids \<union>
              {cu_id parent | i unit k parent.
                 i \<in> set ids \<and> (i, unit) \<in> set (get_units_by_file um fp)
                 \<and> \<not> is_structure (cu_type unit)
                 \<and> (k, parent) \<in> set (get_units_by_file um fp) \<and> is_container i unit parent}
          \<and> (\<forall>k'. get_unit (fst (expand_to_boundaries um fp ids)) k'
                 = (if k' \<in> {k | i unit k parent.
                                i \<in> set ids \<and> (i, unit) \<in> set (get_units_by_file um fp)
                                \<and> \<not> is_structure (cu_type unit)
                                \<and> (k, parent) \<in> set (get_units_by_file um fp)
                                \<and> is_container i unit parent}
                    then map_option mark_affected (get_unit um k') else get_unit um k')))
   \<and> ((\<forall>i\<in>set ids. \<forall>unit. get_unit um i = Some unit \<longrightarrow> is_structure (cu_type unit))
      \<longrightarrow> set (snd (expand_to_boundaries um fp ids)) = set ids
          \<and> fst (expand_to_boundaries um fp ids) = um)
   \<and> um_file_units (fst (expand_to_boundaries um fp ids)) = um_file_units um"
proof -
  let ?res = "expand_to_boundaries um fp ids"
  let ?P = "\<lambda>i unit k parent. i \<in> set ids \<and> get_unit um i = Some unit
              \<and> \<not> is_structure (cu_type unit)
              \<and> (k, parent) \<in> set (get_units_by_file um fp) \<and> is_container i unit parent"
  let ?Q = "\<lambda>i unit k parent. i \<in> set ids \<and> (i, unit) \<in> set (get_units_by_file um fp)
              \<and> \<not> is_structure (cu_type unit)
              \<and> (k, parent) \<in> set (get_units_by_file um fp) \<and> is_container i unit parent"
  note all = expand_to_boundaries_all_ids [of um fp ids]
  have ids: "set (snd ?res) = set ids \<union> {cu_id parent | i unit k parent. ?P i unit k parent}"
    using all by blast
  have marks: "get_unit (fst ?res) k'
        = (if k' \<in> {k | i unit k parent. ?P i unit k parent}
           then map_option mark_affected (get_unit um k') else get_unit um k')" for k'
    using all by blast
  have files: "um_file_units (fst ?res) = um_file_units um"
    using all by blast
  have QP: "?P i unit k parent" if "?Q i unit k parent" for i unit k parent
    using that by (simp add: in_get_units_by_file)
  have c1: "cu_id parent \<in> set (snd ?res) \<and> get_unit (fst ?res) k = Some (mark_affected parent)"
    if q: "?Q i unit k parent" for i unit k parent
  proof -
    have p: "?P i unit k parent" by (rule QP [OF q])
    have a: "cu_id parent \<in> set (snd ?res)" unfolding ids using p by blast
    have "k \<in> {k | i unit k parent. ?P i unit k parent}" using p by blast
    moreover have "get_unit um k = Some parent" using q by (simp add: in_get_units_by_file)
    ultimately have b: "get_unit (fst ?res) k = Some (mark_affected parent)"
      by (simp only: marks if_True option.map)
    show ?thesis using a b ..
  qed
  have c2: "set (snd ?res) = set ids \<union> {cu_id parent | i unit k parent. ?Q i unit k parent}
            \<and> (\<forall>k'. get_unit (fst ?res) k'
                 = (if k' \<in> {k | i unit k parent. ?Q i unit k parent}
                    then map_option mark_affected (get_unit um k') else get_unit um k'))"
    if same: "\<forall>i\<in>set ids. \<forall>unit. get_unit um i = Some unit \<and> \<not> is_structure (cu_type unit)
                \<longrightarrow> i \<in> set (file_ids um fp)"
  proof -
    have PQ: "?P i unit k parent = ?Q i unit k parent" for i unit k parent
      using same by (auto simp: in_get_units_by_file)
    show ?thesis using ids marks by (simp only: PQ) blast
  qed
  have c3: "set (snd ?res) = set ids \<and> fst ?res = um"
    if str: "\<forall>i\<in>set ids. \<forall>unit. get_unit um i = Some unit \<longrightarrow> is_structure (cu_type unit)"
  proof -
    have e: "{cu_id parent | i unit k parent. ?P i unit k parent} = {}" using str by blast
    have a: "set (snd ?res) = set ids" using ids by (simp only: e Un_empty_right)
    have b: "fst ?res = um"
      by (simp add: expand_to_boundaries_fold all_parent_keys_structures [OF str])
    show ?thesis using a b ..
  qed
  show ?thesis
    using c1 c2 c3 files by blast
qed

lemmas um_same_range_eval = um_same_range_def add_unit_def UnitManager_new_def mk_unit_def
  file_ids_def get_unit_def get_units_by_file_def List.map_filter_def

lemma um_same_range_units:
  "get_units_by_file um_same_range ''f''
     = [(''G'', mk_unit ''G'' ''f'' 10 30 CLASS ''h3''),
        (''S'', mk_unit ''S'' ''f'' 15 16 STATEMENT ''h1''),
        (''F'', mk_unit ''F'' ''f'' 15 16 FUNCTION ''h2'')]"
  "get_unit um_same_range ''S'' = Some (mk_unit ''S'' ''f'' 15 16 STATEMENT ''h1'')"
  "get_unit um_same_range ''F'' = Some (mk_unit ''F'' ''f'' 15 16 FUNCTION ''h2'')"
  "get_unit um_same_range ''G'' = Some (mk_unit ''G'' ''f'' 10 30 CLASS ''h3'')"
  by (simp_all add: um_same_range_eval)

text \<open>
  C4 as stated fails: the function F on the lines 15 to 16 does not strictly contain the
  statement S on the same lines, and still F is added and marked Affected.
\<close>

theorem C4_same_range_counterexample:
  "get_unit um_same_range ''S'' = Some (mk_unit ''S'' ''f'' 15 16 STATEMENT ''h1'')
   \<and> get_unit um_same_range ''F'' = Some (mk_unit ''F'' ''f'' 15 16 FUNCTION ''h2'')
   \<and> \<not> strictly_contains (mk_unit ''F'' ''f'' 15 16 FUNCTION ''h2'')
          (mk_unit ''S'' ''f'' 15 16 STATEMENT ''h1'')
   \<and> ''F'' \<notin> set [''S'']
   \<and> ''F'' \<in> set (snd (expand_to_boundaries um_same_range ''f'' [''S'']))
   \<and> map_option unit_state (get_unit (fst (expand_to_boundaries um_same_range ''f'' [''S''])) ''F'')
       = Some AFFECTED"
proof -
  have e: "snd (expand_to_boundaries um_same_range ''f'' [''S'']) = [''S'', ''G'', ''F'']"
    unfolding expand_to_boundaries_def
    by (simp add: um_same_range_units set_of_vector_def set_insert_def is_structure_def mk_unit_def)
  have m: "map_option unit_state
             (get_unit (fst (expand_to_boundaries um_same_range ''f'' [''S''])) ''F'')
           = Some AFFECTED"
    unfolding expand_to_boundaries_def
    by (simp add: um_same_range_units set_of_vector_def set_insert_def is_structure_def
        get_unit_modify mark_affected_def)
       (simp add: mk_unit_def get_unit_modify um_same_range_units mark_affected_def)
  show ?thesis
    using e m um_same_range_units(2,3) by (simp add: strictly_contains_def mk_unit_def)
qed

text \<open>
  The class G on the lines 10 to 30 around the statement S is added and marked; with F, on
  the lines of S, these are all the units added, and S itself is not written.
\<close>

theorem C4_witness:
  "''S'' \<in> set [''S'']
   \<and> (''S'', mk_unit ''S'' ''f'' 15 16 STATEMENT ''h1'') \<in> set (get_units_by_file um_same_range ''f'')
   \<and> \<not> is_structure STATEMENT
   \<and> (''G'', mk_unit ''G'' ''f'' 10 30 CLASS ''h3'') \<in> set (get_units_by_file um_same_range ''f'')
   \<and> is_container ''S'' (mk_unit ''S'' ''f'' 15 16 STATEMENT ''h1'')
        (mk_unit ''G'' ''f'' 10 30 CLASS ''h3'')
   \<and> ''G'' \<in> set (snd (expand_to_boundaries um_same_range ''f'' [''S'']))
   \<and> get_unit (fst (expand_to_boundaries um_same_range ''f'' [''S''])) ''G''
       = Some (mark_affected (mk_unit ''G'' ''f'' 10 30 CLASS ''h3''))
   \<and> ''S'' \<in> set (file_ids um_same_range ''f'')
   \<and> set (snd (expand_to_boundaries um_same_range ''f'' [''S''])) = {''S'', ''G'', ''F''}
   \<and> get_unit (fst (expand_to_boundaries um_same_range ''f'' [''S''])) ''S''
       = Some (mk_unit ''S'' ''f'' 15 16 STATEMENT ''h1'')"
proof -
  let ?S = "mk_unit ''S'' ''f'' 15 16 STATEMENT ''h1''"
  let ?G = "mk_unit ''G'' ''f'' 10 30 CLASS ''h3''"
  let ?res = "expand_to_boundaries um_same_range ''f'' [''S'']"
  have a: "''S'' \<in> set [''S'']" by simp
  have b: "(''S'', ?S) \<in> set (get_units_by_file um_same_range ''f'')"
    by (simp add: um_same_range_units(1))
  have c: "\<not> is_structure (cu_type ?S)" by (simp add: is_structure_def mk_unit_def)
  have c': "\<not> is_structure STATEMENT" by (simp add: is_structure_def)
  have d: "(''G'', ?G) \<in> set (get_units_by_file um_same_range ''f'')"
    by (simp add: um_same_range_units(1))
  have e: "is_container ''S'' ?S ?G"
    by (simp add: is_container_def is_structure_def mk_unit_def)
  have f: "''S'' \<in> set (file_ids um_same_range ''f'')"
    by (simp add: um_same_range_eval)
  have same: "\<forall>i\<in>set [''S'']. \<forall>unit. get_unit um_same_range i = Some unit
                \<and> \<not> is_structure (cu_type unit) \<longrightarrow> i \<in> set (file_ids um_same_range ''f'')"
    using f by simp
  have ids: "{cu_id parent | i unit k parent.
                i \<in> set [''S''] \<and> (i, unit) \<in> set (get_units_by_file um_same_range ''f'')
                \<and> \<not> is_structure (cu_type unit)
                \<and> (k, parent) \<in> set (get_units_by_file um_same_range ''f'')
                \<and> is_container i unit parent} = {''G'', ''F''}" (is "?L = _")
  proof (intro equalityI subsetI)
    fix x assume "x \<in> ?L"
    then show "x \<in> {''G'', ''F''}"
      by (auto simp: um_same_range_units(1) is_container_def is_structure_def mk_unit_def)
  next
    let ?F = "mk_unit ''F'' ''f'' 15 16 FUNCTION ''h2''"
    fix x assume "x \<in> {''G'', ''F''}"
    then consider "x = ''G''" | "x = ''F''" by auto
    then show "x \<in> ?L"
    proof cases
      case 1
      show ?thesis unfolding 1
        by (rule CollectI, intro exI [of _ "''S''"] exI [of _ ?S] exI [of _ "''G''"] exI [of _ ?G])
           (simp add: um_same_range_units(1) is_container_def is_structure_def mk_unit_def)
    next
      case 2
      show ?thesis unfolding 2
        by (rule CollectI, intro exI [of _ "''S''"] exI [of _ ?S] exI [of _ "''F''"] exI [of _ ?F])
           (simp add: um_same_range_units(1) is_container_def is_structure_def mk_unit_def)
    qed
  qed
  have keys: "''S'' \<notin> {k | i unit k parent.
                i \<in> set [''S''] \<and> (i, unit) \<in> set (get_units_by_file um_same_range ''f'')
                \<and> \<not> is_structure (cu_type unit)
                \<and> (k, parent) \<in> set (get_units_by_file um_same_range ''f'')
                \<and> is_container i unit parent}"
    by (auto simp: um_same_range_units(1) is_container_def is_structure_def mk_unit_def)
  note th = C4_expand_to_boundaries [of "[''S'']" um_same_range "''f''"]
  have g: "''G'' \<in> set (snd ?res) \<and> get_unit (fst ?res) ''G'' = Some (mark_affected ?G)"
    using th [THEN conjunct1, THEN spec, THEN spec, THEN spec, THEN spec,
              of "''S''" ?S "''G''" ?G] a b c d e
    by (simp add: mk_unit_def)
  note th2 = th [THEN conjunct2, THEN conjunct1, THEN mp, OF same]
  have h: "set (snd ?res) = {''S'', ''G'', ''F''}"
    using th2 [THEN conjunct1] unfolding ids by auto
  have m: "get_unit (fst ?res) ''S'' = Some ?S"
    by (simp only: th2 [THEN conjunct2, THEN spec, of "''S''"] keys if_False
        um_same_range_units(2))
  show ?thesis
    using a b c' d e g f h m by (intro conjI) (simp_all only: simp_thms)
qed

text \<open>
  For an id of a unit of another file the line numbers are compared across the files: with
  g1 of file g in the list and file f updated, the function F of f is added and the class G
  of g, around g1, is not.
\<close>

lemma expand_to_boundaries_other_file:
  "map_option file_path (get_unit um_two_files ''g1'') = Some ''g''
   \<and> map_option file_path (get_unit um_two_files ''G'') = Some ''g''
   \<and> map_option file_path (get_unit um_two_files ''F'') = Some ''f''
   \<and> snd (expand_to_boundaries um_two_files ''f'' [''g1'']) = [''g1'', ''F'']"
  unfolding expand_to_boundaries_def
  by (simp add: um_two_files_def add_unit_def UnitManager_new_def mk_unit_def
      file_ids_def get_unit_def get_units_by_file_def List.map_filter_def
      set_of_vector_def set_insert_def is_structure_def)

subsection \<open>IncrementalEngine: what \<open>update_source\<close> leaves to compile\<close>

lemma core_mark_modified [simp]: "core (mark_modified u) = core u"
  by (simp add: core_def mark_modified_def)

lemma same_core_mark_modified:
  "same_core um1 um2 \<Longrightarrow> same_core (modify_unit um1 k mark_modified) um2"
  unfolding same_core_def
  by (auto simp: get_unit_modify option.map_comp comp_def)

lemma end_line_core [simp]: "end_line (core u) = end_line u"
  by (simp add: core_def)

lemma dependents_core [simp]: "dependents (core u) = dependents u"
  by (simp add: core_def)

lemma cu_type_of_core [simp]: "cu_type (core u) = cu_type u"
  by (simp add: core_def)

lemma same_core_lookup:
  assumes "same_core um1 um2" "get_unit um1 a = Some u1"
  shows "\<exists>u2. get_unit um2 a = Some u2 \<and> core u2 = core u1"
proof -
  have "map_option core (get_unit um1 a) = map_option core (get_unit um2 a)"
    using assms(1) unfolding same_core_def by blast
  then have "map_option core (get_unit um2 a) = Some (core u1)"
    by (simp add: assms(2))
  then show ?thesis by (cases "get_unit um2 a") auto
qed

lemma same_core_sym: "same_core um1 um2 \<Longrightarrow> same_core um2 um1"
  by (simp add: same_core_def)

lemma same_core_edges_le:
  assumes "same_core um1 um2"
  shows "dependents_edges um1 \<subseteq> dependents_edges um2"
proof
  fix p assume p: "p \<in> dependents_edges um1"
  obtain a b where ab: "p = (a, b)" by (cases p)
  from p ab obtain u1 where u1: "get_unit um1 a = Some u1" "b \<in> set (dependents u1)"
    by (auto simp: dependents_edges_def)
  obtain u2 where u2: "get_unit um2 a = Some u2" "core u2 = core u1"
    using same_core_lookup [OF assms u1(1)] by blast
  have "dependents u2 = dependents (core u2)" by simp
  also have "\<dots> = dependents u1" unfolding u2(2) by simp
  finally show "p \<in> dependents_edges um2"
    using u1(2) u2(1) ab by (auto simp: dependents_edges_def)
qed

lemma same_core_edges:
  "same_core um1 um2 \<Longrightarrow> dependents_edges um1 = dependents_edges um2"
  using same_core_edges_le [of um1 um2] same_core_edges_le [OF same_core_sym, of um1 um2]
  by blast

lemma set_get_affected_units:
  "set (get_affected_units um x) = (dependents_edges um)\<^sup>* `` {x} - {x}"
  using collect_from_seed [of um x] by (auto simp: get_affected_units_def)

lemma mark_dependents_fold:
  "mark_dependents ds (um, acc)
     = (fold (\<lambda>k m. modify_unit m k mark_affected) ds um, fold set_insert ds acc)"
  by (induction ds arbitrary: um acc) simp_all

text \<open>
  The loops of \<open>update_source\<close> over the changed lines write only the state and the cache
  flag of units, so the edges and the line ranges they read are those of the manager before
  the call; the ids they collect are the changed units and everything reachable from them.
\<close>

lemma mark_units_sets:
  assumes "same_core um1 um0"
  shows "same_core (fst (mark_units us (um1, acc))) um0
         \<and> set (snd (mark_units us (um1, acc)))
             = set acc \<union> (dependents_edges um0)\<^sup>* `` ((\<lambda>p. cu_id (snd p)) ` set us)"
  using assms
proof (induction us arbitrary: um1 acc)
  case Nil
  then show ?case by simp
next
  case (Cons p us)
  obtain k unit where p: "p = (k, unit)" by (cases p)
  let ?x = "cu_id unit"
  let ?um1 = "modify_unit um1 k mark_modified"
  let ?ds = "get_affected_units ?um1 ?x"
  let ?um2 = "fold (\<lambda>k m. modify_unit m k mark_affected) ?ds ?um1"
  let ?acc2 = "fold set_insert ?ds (set_insert ?x acc)"
  have s1: "same_core ?um1 um0" by (rule same_core_mark_modified [OF Cons.prems])
  have s2: "same_core ?um2 um0" by (rule same_core_fold [OF s1])
  have ds: "set ?ds = (dependents_edges um0)\<^sup>* `` {?x} - {?x}"
    by (simp only: set_get_affected_units same_core_edges [OF s1])
  have acc2: "set ?acc2 = set acc \<union> (dependents_edges um0)\<^sup>* `` {?x}"
    unfolding set_fold_set_insert ds by (auto simp: set_insert_def)
  have step: "mark_units (p # us) (um1, acc) = mark_units us (?um2, ?acc2)"
    by (simp add: p Let_def mark_dependents_fold)
  show ?case
    unfolding step using Cons.IH [OF s2, of ?acc2] acc2 by (auto simp: p)
qed

lemma filter_range_core:
  "map (apsnd core) (filter (\<lambda>p. start_line (snd p) \<le> b \<and> end_line (snd p) \<ge> a) xs)
     = filter (\<lambda>p. start_line (snd p) \<le> b \<and> end_line (snd p) \<ge> a) (map (apsnd core) xs)"
  by (induction xs) auto

lemma get_units_in_range_core:
  assumes "same_core um1 um2"
  shows "map (apsnd core) (get_units_in_range um1 fp a b)
           = map (apsnd core) (get_units_in_range um2 fp a b)"
  unfolding get_units_in_range_def filter_range_core
  by (simp only: get_units_by_file_core [OF assms])

lemma ids_of_core:
  "(\<lambda>p. cu_id (snd p)) ` set xs = (\<lambda>p. cu_id (snd p)) ` set (map (apsnd core) xs)"
  by (simp add: image_image)

lemma range_ids_same_core:
  assumes "same_core um1 um2"
  shows "(\<lambda>p. cu_id (snd p)) ` set (get_units_in_range um1 fp a b)
           = (\<lambda>p. cu_id (snd p)) ` set (get_units_in_range um2 fp a b)"
  by (simp only: ids_of_core [of "get_units_in_range um1 fp a b"]
      ids_of_core [of "get_units_in_range um2 fp a b"] get_units_in_range_core [OF assms])

lemma mark_lines_sets:
  assumes "same_core um1 um0"
  shows "same_core (fst (mark_lines fp ls (um1, acc))) um0
         \<and> set (snd (mark_lines fp ls (um1, acc)))
             = set acc \<union> (dependents_edges um0)\<^sup>* ``
                 (\<Union>line\<in>set ls. (\<lambda>p. cu_id (snd p)) ` set (get_units_in_range um0 fp line line))"
  using assms
proof (induction ls arbitrary: um1 acc)
  case Nil
  then show ?case by simp
next
  case (Cons line ls)
  let ?us = "get_units_in_range um1 fp line line"
  let ?r = "mark_units ?us (um1, acc)"
  have r: "same_core (fst ?r) um0"
    "set (snd ?r) = set acc \<union> (dependents_edges um0)\<^sup>* `` ((\<lambda>p. cu_id (snd p)) ` set ?us)"
    using mark_units_sets [OF Cons.prems, of ?us acc] by blast+
  have us: "(\<lambda>p. cu_id (snd p)) ` set ?us
             = (\<lambda>p. cu_id (snd p)) ` set (get_units_in_range um0 fp line line)"
    by (rule range_ids_same_core [OF Cons.prems])
  have step: "mark_lines fp (line # ls) (um1, acc) = mark_lines fp ls (fst ?r, snd ?r)"
    by simp
  let ?E = "(dependents_edges um0)\<^sup>*"
  let ?A = "(\<lambda>p. cu_id (snd p)) ` set (get_units_in_range um0 fp line line)"
  let ?B = "\<Union>line\<in>set ls. (\<lambda>p. cu_id (snd p)) ` set (get_units_in_range um0 fp line line)"
  have ih: "same_core (fst (mark_lines fp ls (fst ?r, snd ?r))) um0"
    "set (snd (mark_lines fp ls (fst ?r, snd ?r))) = set (snd ?r) \<union> ?E `` ?B"
    using Cons.IH [OF r(1), of "snd ?r"] by blast+
  have u: "(\<Union>l\<in>set (line # ls). (\<lambda>p. cu_id (snd p)) ` set (get_units_in_range um0 fp l l))
             = ?A \<union> ?B"
    by simp
  have "set (snd (mark_lines fp ls (fst ?r, snd ?r))) = set acc \<union> ?E `` (?A \<union> ?B)"
    unfolding ih(2) r(2) us Image_Un by (rule Un_assoc)
  then show ?case
    unfolding step u using ih(1) by (rule conjI [rotated])
qed

lemma changed_unit_ids_ranges:
  "changed_unit_ids um fp ls
     = (\<Union>line\<in>set ls. (\<lambda>p. cu_id (snd p)) ` set (get_units_in_range um fp line line))"
proof (intro equalityI subsetI)
  fix x assume "x \<in> changed_unit_ids um fp ls"
  then obtain k unit line where h: "x = cu_id unit" "line \<in> set ls"
      "(k, unit) \<in> set (get_units_by_file um fp)" "start_line unit \<le> line" "line \<le> end_line unit"
    unfolding changed_unit_ids_def by blast
  have "(k, unit) \<in> set (get_units_in_range um fp line line)"
    using h(3,4,5) by (simp add: get_units_in_range_def)
  then have "x \<in> (\<lambda>p. cu_id (snd p)) ` set (get_units_in_range um fp line line)"
    using h(1) by force
  then show "x \<in> (\<Union>line\<in>set ls. (\<lambda>p. cu_id (snd p)) ` set (get_units_in_range um fp line line))"
    using h(2) by blast
next
  fix x assume "x \<in> (\<Union>line\<in>set ls. (\<lambda>p. cu_id (snd p)) ` set (get_units_in_range um fp line line))"
  then obtain line p where h: "line \<in> set ls" "p \<in> set (get_units_in_range um fp line line)"
      "x = cu_id (snd p)"
    by blast
  obtain k unit where p: "p = (k, unit)" by (cases p)
  have "(k, unit) \<in> set (get_units_by_file um fp)" "start_line unit \<le> line" "line \<le> end_line unit"
    using h(2) unfolding p by (simp_all add: get_units_in_range_def)
  then show "x \<in> changed_unit_ids um fp ls"
    unfolding changed_unit_ids_def using h(1,3) p by auto
qed

lemma filter_structure_core:
  "filter (\<lambda>p. is_structure (cu_type (snd p))) (map (apsnd core) xs)
     = map (apsnd core) (filter (\<lambda>p. is_structure (cu_type (snd p))) xs)"
  by (induction xs) auto

lemma file_structure_ids_core:
  "file_structure_ids um fp
     = (\<lambda>p. cu_id (snd p)) `
         set (filter (\<lambda>p. is_structure (cu_type (snd p))) (map (apsnd core) (get_units_by_file um fp)))"
proof -
  have "file_structure_ids um fp
          = (\<lambda>p. cu_id (snd p)) `
              set (filter (\<lambda>p. is_structure (cu_type (snd p))) (get_units_by_file um fp))"
    unfolding file_structure_ids_def by force
  also have "\<dots> = (\<lambda>p. cu_id (snd p)) `
              set (map (apsnd core)
                     (filter (\<lambda>p. is_structure (cu_type (snd p))) (get_units_by_file um fp)))"
    by (rule ids_of_core)
  finally show ?thesis by (simp only: filter_structure_core)
qed

lemma file_structure_ids_same_core:
  "same_core um1 um2 \<Longrightarrow> file_structure_ids um1 fp = file_structure_ids um2 fp"
  by (simp only: file_structure_ids_core get_units_by_file_core)

text \<open>The expansion keeps every id and adds only Function and Class units of the file.\<close>

lemma expand_to_boundaries_bounds:
  "set ids \<subseteq> set (snd (expand_to_boundaries um fp ids))
   \<and> set (snd (expand_to_boundaries um fp ids)) \<subseteq> set ids \<union> file_structure_ids um fp"
proof -
  have "set (snd (expand_to_boundaries um fp ids))
     = set ids \<union>
       {cu_id parent | i unit k parent.
          i \<in> set ids \<and> get_unit um i = Some unit \<and> \<not> is_structure (cu_type unit)
          \<and> (k, parent) \<in> set (get_units_by_file um fp) \<and> is_container i unit parent}"
    using expand_to_boundaries_all_ids [of um fp ids] by blast
  then show ?thesis
    unfolding file_structure_ids_def is_container_def by blast
qed

lemma distinct_fold_set_insert: "distinct acc \<Longrightarrow> distinct (fold set_insert xs acc)"
  by (induction xs arbitrary: acc) (simp_all add: set_insert_def)

lemma distinct_set_of_vector: "distinct (set_of_vector xs)"
  by (simp add: set_of_vector_def distinct_fold_set_insert)

lemma units_to_compile_update_source:
  assumes "map_of (eng_snapshots eng) fp = Some old_snap"
  shows "units_to_compile (snd (update_source cs now eng fp new_content))
     = set_of_vector (snd (expand_to_boundaries
         (fst (mark_lines fp
                 (get_changed_lines old_snap (create_snapshot cs now fp new_content))
                 (eng_units eng, [])))
         fp
         (snd (mark_lines fp
                 (get_changed_lines old_snap (create_snapshot cs now fp new_content))
                 (eng_units eng, [])))))"
  using assms by (simp add: update_source_def Let_def split: prod.splits)

lemma units_to_compile_first_update:
  assumes "map_of (eng_snapshots eng) fp = None"
  shows "units_to_compile (snd (update_source cs now eng fp new_content))
     = units_to_compile eng @ map (\<lambda>p. cu_id (snd p)) (get_units_by_file (eng_units eng) fp)"
  using assms by (simp add: update_source_def Let_def)

text \<open>
  C10. When the file has an old snapshot, \<open>units_to_compile\<close> after \<open>update_source\<close> is
  cleared and refilled, without repetition, with the affected set of this call:

  \<^item> it holds the id of every unit of the file that a changed line falls into, and every id
    reachable from one of these along \<open>dependents\<close> edges, in whatever file;
  \<^item> every other id in it is the id of a Function or Class unit of the file;
  \<^item> so an id that was pending before, and is not a Function or Class unit of the file, is
    still pending after the call exactly when it is a changed unit or reachable from one:
    the pending ids of other files are dropped unless they depend, directly or not, on a
    changed unit;
  \<^item> the list does not depend on what was pending before.

  When the file has no snapshot, the list after is the list before followed by the ids of
  the stored units listed under the file, each as often as it is listed.
\<close>

theorem C10_units_to_compile_frame:
  "(\<forall>old_snap. map_of (eng_snapshots eng) fp = Some old_snap \<longrightarrow>
      dependents_closure (eng_units eng)
          (changed_unit_ids (eng_units eng) fp
             (get_changed_lines old_snap (create_snapshot cs now fp new_content)))
        \<subseteq> set (units_to_compile (snd (update_source cs now eng fp new_content)))
      \<and> set (units_to_compile (snd (update_source cs now eng fp new_content)))
        \<subseteq> dependents_closure (eng_units eng)
            (changed_unit_ids (eng_units eng) fp
               (get_changed_lines old_snap (create_snapshot cs now fp new_content)))
          \<union> file_structure_ids (eng_units eng) fp
      \<and> distinct (units_to_compile (snd (update_source cs now eng fp new_content)))
      \<and> (\<forall>x\<in>set (units_to_compile eng). x \<notin> file_structure_ids (eng_units eng) fp \<longrightarrow>
           (x \<in> set (units_to_compile (snd (update_source cs now eng fp new_content)))
            \<longleftrightarrow> x \<in> dependents_closure (eng_units eng)
                      (changed_unit_ids (eng_units eng) fp
                         (get_changed_lines old_snap (create_snapshot cs now fp new_content)))))
      \<and> units_to_compile
            (snd (update_source cs now (eng\<lparr>units_to_compile := pending\<rparr>) fp new_content))
        = units_to_compile (snd (update_source cs now eng fp new_content)))
   \<and> (map_of (eng_snapshots eng) fp = None \<longrightarrow>
      (\<exists>added. units_to_compile (snd (update_source cs now eng fp new_content))
                 = units_to_compile eng @ added
              \<and> (\<forall>x. count_list added x
                       = count_list (map (\<lambda>p. cu_id (snd p))
                                       (get_units_by_file (eng_units eng) fp)) x)))"
proof -
  have some: "?thesis" if True: "True" and
    A: "\<And>old_snap. map_of (eng_snapshots eng) fp = Some old_snap \<Longrightarrow>
      dependents_closure (eng_units eng)
          (changed_unit_ids (eng_units eng) fp
             (get_changed_lines old_snap (create_snapshot cs now fp new_content)))
        \<subseteq> set (units_to_compile (snd (update_source cs now eng fp new_content)))
      \<and> set (units_to_compile (snd (update_source cs now eng fp new_content)))
        \<subseteq> dependents_closure (eng_units eng)
            (changed_unit_ids (eng_units eng) fp
               (get_changed_lines old_snap (create_snapshot cs now fp new_content)))
          \<union> file_structure_ids (eng_units eng) fp
      \<and> distinct (units_to_compile (snd (update_source cs now eng fp new_content)))
      \<and> units_to_compile
            (snd (update_source cs now (eng\<lparr>units_to_compile := pending\<rparr>) fp new_content))
        = units_to_compile (snd (update_source cs now eng fp new_content))"
    and B: "map_of (eng_snapshots eng) fp = None \<Longrightarrow>
      units_to_compile (snd (update_source cs now eng fp new_content))
        = units_to_compile eng @ map (\<lambda>p. cu_id (snd p)) (get_units_by_file (eng_units eng) fp)"
    using A B by blast
  show ?thesis
  proof (rule some)
    show True ..
  next
    fix old_snap assume old: "map_of (eng_snapshots eng) fp = Some old_snap"
    let ?um = "eng_units eng"
    let ?ls = "get_changed_lines old_snap (create_snapshot cs now fp new_content)"
    let ?m = "mark_lines fp ?ls (?um, [])"
    let ?after = "units_to_compile (snd (update_source cs now eng fp new_content))"
    have m: "same_core (fst ?m) ?um"
      "set (snd ?m) = dependents_closure ?um (changed_unit_ids ?um fp ?ls)"
      using mark_lines_sets [OF same_core_refl, of fp ?ls ?um "[]"]
      by (simp_all add: dependents_closure_def changed_unit_ids_ranges)
    have after: "?after = set_of_vector (snd (expand_to_boundaries (fst ?m) fp (snd ?m)))"
      by (rule units_to_compile_update_source [OF old])
    have old': "map_of (eng_snapshots (eng\<lparr>units_to_compile := pending\<rparr>)) fp = Some old_snap"
      using old by simp
    have indep: "units_to_compile
            (snd (update_source cs now (eng\<lparr>units_to_compile := pending\<rparr>) fp new_content))
        = ?after"
      unfolding after units_to_compile_update_source [OF old'] by simp
    have b: "set (snd ?m) \<subseteq> set ?after"
      "set ?after \<subseteq> set (snd ?m) \<union> file_structure_ids ?um fp"
      unfolding after set_set_of_vector
      using expand_to_boundaries_bounds [of "snd ?m" "fst ?m" fp]
        file_structure_ids_same_core [OF m(1), of fp] by auto
    have d: "distinct ?after" unfolding after by (rule distinct_set_of_vector)
    show "dependents_closure ?um (changed_unit_ids ?um fp ?ls) \<subseteq> set ?after
      \<and> set ?after \<subseteq> dependents_closure ?um (changed_unit_ids ?um fp ?ls)
          \<union> file_structure_ids ?um fp
      \<and> distinct ?after
      \<and> units_to_compile
            (snd (update_source cs now (eng\<lparr>units_to_compile := pending\<rparr>) fp new_content))
        = ?after"
      using b d indep unfolding m(2) by blast
  next
    assume "map_of (eng_snapshots eng) fp = None"
    then show "units_to_compile (snd (update_source cs now eng fp new_content))
        = units_to_compile eng @ map (\<lambda>p. cu_id (snd p)) (get_units_by_file (eng_units eng) fp)"
      by (rule units_to_compile_first_update)
  qed
qed


text \<open>The engines of the examples, evaluated.\<close>

lemma eng_dependent_units:
  "eng_units eng_dependent =
     \<lparr>um_units = [(''g1'', (mk_unit ''g1'' ''g'' 1 1 LINE ''hg'')
                             \<lparr>dependencies := [''f2''], unit_state := ADDED\<rparr>),
                  (''f1'', (mk_unit ''f1'' ''f'' 1 1 LINE ''h1'')\<lparr>unit_state := ADDED\<rparr>),
                  (''f2'', (mk_unit ''f2'' ''f'' 2 2 LINE ''h2'')
                             \<lparr>dependents := [''g1''], unit_state := ADDED\<rparr>)],
      um_file_units = [(''g'', [''g1'']), (''f'', [''f1'', ''f2''])]\<rparr>"
  "units_to_compile eng_dependent = [''g1'', ''f1'', ''f2'']"
  "\<exists>old. map_of (eng_snapshots eng_dependent) ''f'' = Some old
         \<and> line_hashes old = line_hashes (create_snapshot True 0 ''f'' content_xyz)"
  by (simp_all add: eng_dependent_def update_source_def IncrementalEngine_new_def um_eval
      add_dependency_def install_snapshot_def AList.update_conv')

lemma changed_xYz:
  assumes "line_hashes old = line_hashes (create_snapshot True 0 ''f'' content_xyz)"
  shows "get_changed_lines old (create_snapshot True 1 ''f'' content_xYz) = [2]"
proof -
  have a: "split_lines content_xyz = [''x''] @ [''y''] @ [''z'']"
    by (simp add: split_lines_def content_xyz_def)
  have b: "split_lines content_xYz = [''x''] @ [''Y''] @ [''z'']"
    by (simp add: split_lines_def content_xYz_def)
  have c: "compute_line_hash True ''y'' \<noteq> compute_line_hash True ''Y''"
    by (simp add: hash_eval)
  have o: "line_hashes old
        = map (compute_line_hash True) [''x''] @ [compute_line_hash True ''y'']
          @ map (compute_line_hash True) [''z'']"
    by (simp add: assms create_snapshot_def a)
  have n: "line_hashes (create_snapshot True 1 ''f'' content_xYz)
        = map (compute_line_hash True) [''x''] @ [compute_line_hash True ''Y'']
          @ map (compute_line_hash True) [''z'']"
    by (simp add: create_snapshot_def b)
  show ?thesis
    using single_hash_change_localised [OF o n c] by simp
qed

text \<open>
  C10 as stated fails: g1 is a unit of file g, pending when file f is updated a second
  time, and it is still in the list afterwards, since it depends on the changed unit f2.
\<close>

theorem C10_dependent_counterexample:
  "(\<exists>old. map_of (eng_snapshots eng_dependent) ''f'' = Some old)
   \<and> units_to_compile eng_dependent = [''g1'', ''f1'', ''f2'']
   \<and> map_option file_path (get_unit (eng_units eng_dependent) ''g1'') = Some ''g''
   \<and> units_to_compile (snd (update_source True 1 eng_dependent ''f'' content_xYz))
       = [''f2'', ''g1'']"
proof -
  obtain old where old: "map_of (eng_snapshots eng_dependent) ''f'' = Some old"
    and lh: "line_hashes old = line_hashes (create_snapshot True 0 ''f'' content_xyz)"
    using eng_dependent_units(3) by blast
  have ch: "get_changed_lines old (create_snapshot True 1 ''f'' content_xYz) = [2]"
    by (rule changed_xYz [OF lh])
  have g: "map_option file_path (get_unit (eng_units eng_dependent) ''g1'') = Some ''g''"
    unfolding eng_dependent_units(1) by (simp add: get_unit_def mk_unit_def)
  have s: "units_to_compile (snd (update_source True 1 eng_dependent ''f'' content_xYz))
       = [''f2'', ''g1'']"
    unfolding units_to_compile_update_source [OF old] ch eng_dependent_units(1)
    by (simp add: get_units_in_range_def um_eval expand_to_boundaries_def set_of_vector_def
        set_insert_def mark_modified_def mark_affected_def is_structure_def
        get_affected_units_def collect_affected_recursive_def)
  show ?thesis
    using old eng_dependent_units(2) g s by blast
qed


lemma eng_dependent_sets:
  "''f2'' \<in> changed_unit_ids (eng_units eng_dependent) ''f'' [2]"
  "(''f2'', ''g1'') \<in> dependents_edges (eng_units eng_dependent)"
  "''g1'' \<notin> file_structure_ids (eng_units eng_dependent) ''f''"
proof -
  let ?f2 = "(mk_unit ''f2'' ''f'' 2 2 LINE ''h2'')\<lparr>dependents := [''g1''], unit_state := ADDED\<rparr>"
  have l: "get_units_by_file (eng_units eng_dependent) ''f''
             = [(''f1'', (mk_unit ''f1'' ''f'' 1 1 LINE ''h1'')\<lparr>unit_state := ADDED\<rparr>), (''f2'', ?f2)]"
    unfolding eng_dependent_units(1) by (simp add: um_eval)
  show "''f2'' \<in> changed_unit_ids (eng_units eng_dependent) ''f'' [2]"
    unfolding changed_unit_ids_def l
    by (rule CollectI, intro exI [of _ "''f2''"] exI [of _ ?f2] exI [of _ 2])
       (simp add: mk_unit_def)
  show "(''f2'', ''g1'') \<in> dependents_edges (eng_units eng_dependent)"
    unfolding eng_dependent_units(1) by (simp add: dependents_edges_def get_unit_def mk_unit_def)
  have "file_structure_ids (eng_units eng_dependent) ''f'' = {}"
    unfolding file_structure_ids_def l by (auto simp: mk_unit_def is_structure_def)
  then show "''g1'' \<notin> file_structure_ids (eng_units eng_dependent) ''f''"
    by simp
qed

lemma eng_two_files_sets:
  "changed_unit_ids (eng_units eng_two_files) ''f'' [2] = {''f2''}"
  "dependents_edges (eng_units eng_two_files) = {}"
  "file_structure_ids (eng_units eng_two_files) ''f'' = {}"
proof -
  let ?f2 = "(mk_unit ''f2'' ''f'' 2 2 LINE ''h2'')\<lparr>unit_state := ADDED\<rparr>"
  have l: "get_units_by_file (eng_units eng_two_files) ''f''
             = [(''f1'', (mk_unit ''f1'' ''f'' 1 1 LINE ''h1'')\<lparr>unit_state := ADDED\<rparr>), (''f2'', ?f2)]"
    unfolding eng_two_files_units(1) by (simp add: um_eval)
  have a: "''f2'' \<in> changed_unit_ids (eng_units eng_two_files) ''f'' [2]"
    unfolding changed_unit_ids_def l
    by (rule CollectI, intro exI [of _ "''f2''"] exI [of _ ?f2] exI [of _ 2])
       (simp add: mk_unit_def)
  have b: "changed_unit_ids (eng_units eng_two_files) ''f'' [2] \<subseteq> {''f2''}"
    unfolding changed_unit_ids_def l by (auto simp: mk_unit_def)
  show "changed_unit_ids (eng_units eng_two_files) ''f'' [2] = {''f2''}"
    using a b by blast
  show "dependents_edges (eng_units eng_two_files) = {}"
    unfolding eng_two_files_units(1)
    by (auto simp: dependents_edges_def get_unit_def mk_unit_def split: if_splits)
  show "file_structure_ids (eng_units eng_two_files) ''f'' = {}"
    unfolding file_structure_ids_def l by (auto simp: mk_unit_def is_structure_def)
qed

text \<open>
  With g1 depending on f2 the pending g1 stays; without the edge the list after the second
  update of f is f2 alone; and the first update of f keeps the pending g1 in front.
\<close>

theorem C10_witness:
  "(\<exists>old. map_of (eng_snapshots eng_dependent) ''f'' = Some old)
   \<and> ''g1'' \<in> set (units_to_compile eng_dependent)
   \<and> ''g1'' \<notin> file_structure_ids (eng_units eng_dependent) ''f''
   \<and> ''g1'' \<in> set (units_to_compile (snd (update_source True 1 eng_dependent ''f'' content_xYz)))
   \<and> (\<exists>old. map_of (eng_snapshots eng_two_files) ''f'' = Some old)
   \<and> ''g1'' \<in> set (units_to_compile eng_two_files)
   \<and> set (units_to_compile (snd (update_source True 1 eng_two_files ''f'' content_xYz))) = {''f2''}
   \<and> map_of (eng_snapshots eng_one_file) ''f'' = None
   \<and> units_to_compile eng_one_file = [''g1'']
   \<and> take 1 (units_to_compile (snd (update_source True 0 eng_one_file ''f'' content_xyz)))
       = [''g1'']"
proof -
  obtain old where old: "map_of (eng_snapshots eng_dependent) ''f'' = Some old"
    and lh: "line_hashes old = line_hashes (create_snapshot True 0 ''f'' content_xyz)"
    using eng_dependent_units(3) by blast
  have ch: "get_changed_lines old (create_snapshot True 1 ''f'' content_xYz) = [2]"
    by (rule changed_xYz [OF lh])
  have cl: "''g1'' \<in> dependents_closure (eng_units eng_dependent)
                       (changed_unit_ids (eng_units eng_dependent) ''f'' [2])"
    unfolding dependents_closure_def
    using eng_dependent_sets(1) r_into_rtrancl [OF eng_dependent_sets(2)] by (rule ImageI [rotated])
  note th = C10_units_to_compile_frame
    [where eng = eng_dependent and fp = "''f''" and cs = True and now = 1
       and new_content = content_xYz and pending = "[]"]
  have lower: "dependents_closure (eng_units eng_dependent)
                 (changed_unit_ids (eng_units eng_dependent) ''f'' [2])
        \<subseteq> set (units_to_compile (snd (update_source True 1 eng_dependent ''f'' content_xYz)))"
    using th [THEN conjunct1, THEN spec, THEN mp, OF old, THEN conjunct1] unfolding ch .
  have a: "''g1'' \<in> set (units_to_compile (snd (update_source True 1 eng_dependent ''f'' content_xYz)))"
    using lower cl by (rule subsetD)
  have p: "''g1'' \<in> set (units_to_compile eng_dependent)"
    by (simp add: eng_dependent_units(2))
  obtain old2 where old2: "map_of (eng_snapshots eng_two_files) ''f'' = Some old2"
    and lh2: "line_hashes old2 = line_hashes (create_snapshot True 0 ''f'' content_xyz)"
    using eng_two_files_units(3) by blast
  have ch2: "get_changed_lines old2 (create_snapshot True 1 ''f'' content_xYz) = [2]"
    by (rule changed_xYz [OF lh2])
  have cl2: "dependents_closure (eng_units eng_two_files)
               (changed_unit_ids (eng_units eng_two_files) ''f'' [2]) = {''f2''}"
    unfolding dependents_closure_def eng_two_files_sets by simp
  note th2 = C10_units_to_compile_frame
    [where eng = eng_two_files and fp = "''f''" and cs = True and now = 1
       and new_content = content_xYz and pending = "[]"]
  note some2 = th2 [THEN conjunct1, THEN spec, THEN mp, OF old2]
  have b: "set (units_to_compile (snd (update_source True 1 eng_two_files ''f'' content_xYz)))
             = {''f2''}"
    using some2 [THEN conjunct1] some2 [THEN conjunct2, THEN conjunct1]
    unfolding ch2 cl2 eng_two_files_sets(3) by blast
  have p2: "''g1'' \<in> set (units_to_compile eng_two_files)"
    by (simp add: eng_two_files_units(2))
  note th3 = C10_units_to_compile_frame
    [where eng = eng_one_file and fp = "''f''" and cs = True and now = 0
       and new_content = content_xyz and pending = "[]"]
  obtain added where
    added: "units_to_compile (snd (update_source True 0 eng_one_file ''f'' content_xyz))
              = units_to_compile eng_one_file @ added"
    using th3 [THEN conjunct2, THEN mp, OF eng_one_file_units(3)] by blast
  have c: "take 1 (units_to_compile (snd (update_source True 0 eng_one_file ''f'' content_xyz)))
             = [''g1'']"
    unfolding added eng_one_file_units(2) by simp
  have o1: "\<exists>old. map_of (eng_snapshots eng_dependent) ''f'' = Some old" using old by blast
  have o2: "\<exists>old. map_of (eng_snapshots eng_two_files) ''f'' = Some old" using old2 by blast
  show ?thesis
    by (intro conjI) (rule o1 p eng_dependent_sets(3) a o2 p2 b eng_one_file_units(3)
        eng_one_file_units(2) c)+
qed

subsection \<open>UnitManager: the file index and the file of a unit\<close>

lemma um_indexed_new: "um_indexed UnitManager_new"
  by (simp add: um_indexed_def UnitManager_new_def get_unit_def file_ids_def)

lemma get_unit_add_unit:
  "get_unit (add_unit um unit) k = (if k = cu_id unit then Some unit else get_unit um k)"
  by (simp add: get_unit_def add_unit_def update_conv')

lemma file_ids_add_unit:
  "file_ids (add_unit um unit) fp
     = (if fp = file_path unit then file_ids um fp @ [cu_id unit] else file_ids um fp)"
  by (simp add: file_ids_def add_unit_def update_conv')

lemma um_indexed_add_unit:
  assumes "um_indexed um" "get_unit um (cu_id unit) = None"
  shows "um_indexed (add_unit um unit)"
proof -
  have a: "\<And>k u. get_unit um k = Some u \<Longrightarrow> cu_id u = k"
    and b: "\<And>fp k. k \<in> set (file_ids um fp) \<longleftrightarrow> (\<exists>u. get_unit um k = Some u \<and> file_path u = fp)"
    using assms(1) unfolding um_indexed_def by blast+
  have c: "cu_id u = k" if "get_unit (add_unit um unit) k = Some u" for k u
    using that a by (auto simp: get_unit_add_unit split: if_splits)
  have d: "k \<in> set (file_ids (add_unit um unit) fp)
             \<longleftrightarrow> (\<exists>u. get_unit (add_unit um unit) k = Some u \<and> file_path u = fp)" for fp k
  proof (cases "k = cu_id unit")
    case True
    have "k \<notin> set (file_ids um fp)" using b [of k fp] assms(2) True by simp
    then show ?thesis using True by (auto simp: get_unit_add_unit file_ids_add_unit)
  next
    case False
    then show ?thesis using b [of k fp] by (auto simp: get_unit_add_unit file_ids_add_unit)
  qed
  show ?thesis unfolding um_indexed_def using c d by blast
qed

lemma file_path_core [simp]: "file_path (core u) = file_path u"
  by (simp add: core_def)

lemma um_indexed_same_core:
  assumes "same_core um1 um2" "um_indexed um2"
  shows "um_indexed um1"
proof -
  have f: "file_ids um1 fp = file_ids um2 fp" for fp
    using assms(1) by (simp add: same_core_def file_ids_def)
  have l: "\<exists>u2. get_unit um2 k = Some u2 \<and> core u2 = core u1" if "get_unit um1 k = Some u1" for k u1
    by (rule same_core_lookup [OF assms(1) that])
  have r: "\<exists>u1. get_unit um1 k = Some u1 \<and> core u1 = core u2" if "get_unit um2 k = Some u2" for k u2
    by (rule same_core_lookup [OF same_core_sym [OF assms(1)] that])
  have a: "\<And>k u. get_unit um2 k = Some u \<Longrightarrow> cu_id u = k"
    and b: "\<And>fp k. k \<in> set (file_ids um2 fp) \<longleftrightarrow> (\<exists>u. get_unit um2 k = Some u \<and> file_path u = fp)"
    using assms(2) unfolding um_indexed_def by blast+
  have c: "cu_id u = k" if g: "get_unit um1 k = Some u" for k u
  proof -
    obtain u2 where u2: "get_unit um2 k = Some u2" "core u2 = core u" using l [OF g] by blast
    have "cu_id u = cu_id (core u)" by simp
    also have "\<dots> = cu_id u2" unfolding u2(2) [symmetric] by simp
    finally show ?thesis using a [OF u2(1)] by simp
  qed
  have fp_eq: "file_path u = file_path u'" if e: "core u = core u'" for u u'
  proof -
    have "file_path u = file_path (core u)" by simp
    also have "\<dots> = file_path u'" unfolding e by simp
    finally show ?thesis .
  qed
  have d: "k \<in> set (file_ids um1 fp) \<longleftrightarrow> (\<exists>u. get_unit um1 k = Some u \<and> file_path u = fp)" for fp k
  proof
    assume "k \<in> set (file_ids um1 fp)"
    then obtain u2 where u2: "get_unit um2 k = Some u2" "file_path u2 = fp"
      using b [of k fp] f by auto
    obtain u1 where "get_unit um1 k = Some u1" "core u1 = core u2" using r [OF u2(1)] by blast
    then show "\<exists>u. get_unit um1 k = Some u \<and> file_path u = fp"
      using fp_eq u2(2) by blast
  next
    assume "\<exists>u. get_unit um1 k = Some u \<and> file_path u = fp"
    then obtain u1 where u1: "get_unit um1 k = Some u1" "file_path u1 = fp" by blast
    obtain u2 where "get_unit um2 k = Some u2" "core u2 = core u1" using l [OF u1(1)] by blast
    then have "\<exists>u. get_unit um2 k = Some u \<and> file_path u = fp"
      using fp_eq u1(2) by blast
    then show "k \<in> set (file_ids um1 fp)" using b [of k fp] f by simp
  qed
  show ?thesis unfolding um_indexed_def using c d by blast
qed

text \<open>
  With the index in agreement, the units listed under a file are the stored units with that
  \<open>file_path\<close>, so that the expansion over affected units of the updated file reads in terms
  of \<open>file_path\<close>: the ids added are those of the stored Function and Class units of the same
  file, other than the affected unit, whose line range covers that of the affected unit.
\<close>

lemma listed_iff_file_path:
  assumes "um_indexed um"
  shows "(k, u) \<in> set (get_units_by_file um fp) \<longleftrightarrow> get_unit um k = Some u \<and> file_path u = fp"
    and "(k, u) \<in> set (get_units_by_file um fp) \<Longrightarrow> cu_id u = k"
proof -
  have a: "\<And>k u. get_unit um k = Some u \<Longrightarrow> cu_id u = k"
    and b: "\<And>fp k. k \<in> set (file_ids um fp) \<longleftrightarrow> (\<exists>u. get_unit um k = Some u \<and> file_path u = fp)"
    using assms unfolding um_indexed_def by blast+
  show "(k, u) \<in> set (get_units_by_file um fp) \<longleftrightarrow> get_unit um k = Some u \<and> file_path u = fp"
    unfolding in_get_units_by_file using b [of k fp] by auto
  show "(k, u) \<in> set (get_units_by_file um fp) \<Longrightarrow> cu_id u = k"
    unfolding in_get_units_by_file using a by blast
qed

lemma expand_to_boundaries_same_file:
  assumes ix: "um_indexed um"
      and same: "\<forall>i\<in>set ids. \<forall>unit. get_unit um i = Some unit \<and> \<not> is_structure (cu_type unit)
                   \<longrightarrow> file_path unit = fp"
  shows "set (snd (expand_to_boundaries um fp ids))
     = set ids \<union>
       {p. \<exists>i unit parent.
          i \<in> set ids \<and> get_unit um i = Some unit \<and> file_path unit = fp
          \<and> \<not> is_structure (cu_type unit)
          \<and> get_unit um p = Some parent \<and> file_path parent = fp \<and> p \<noteq> i
          \<and> is_structure (cu_type parent)
          \<and> start_line parent \<le> start_line unit \<and> end_line unit \<le> end_line parent}"
    (is "?L = set ids \<union> ?R")
proof -
  let ?C = "{cu_id parent | i unit k parent.
          i \<in> set ids \<and> get_unit um i = Some unit \<and> \<not> is_structure (cu_type unit)
          \<and> (k, parent) \<in> set (get_units_by_file um fp) \<and> is_container i unit parent}"
  have all: "?L = set ids \<union> ?C"
    using expand_to_boundaries_all_ids [of um fp ids] by blast
  have "?C = ?R"
  proof (intro equalityI subsetI)
    fix x assume "x \<in> ?C"
    then obtain i unit k parent where h: "x = cu_id parent" "i \<in> set ids"
        "get_unit um i = Some unit" "\<not> is_structure (cu_type unit)"
        "(k, parent) \<in> set (get_units_by_file um fp)" "is_container i unit parent"
      by blast
    have k: "cu_id parent = k" by (rule listed_iff_file_path(2) [OF ix h(5)])
    have p: "get_unit um k = Some parent" "file_path parent = fp"
      using listed_iff_file_path(1) [OF ix, of k parent fp] h(5) by blast+
    have u: "file_path unit = fp" using same h(2,3,4) by blast
    show "x \<in> ?R"
      using h(1,2,3,4,6) k p u unfolding is_container_def by blast
  next
    fix x assume "x \<in> ?R"
    then obtain i unit parent where h: "i \<in> set ids" "get_unit um i = Some unit"
        "\<not> is_structure (cu_type unit)" "get_unit um x = Some parent" "file_path parent = fp"
        "x \<noteq> i" "is_structure (cu_type parent)"
        "start_line parent \<le> start_line unit" "end_line unit \<le> end_line parent"
      by blast
    have l: "(x, parent) \<in> set (get_units_by_file um fp)"
      using listed_iff_file_path(1) [OF ix, of x parent fp] h(4,5) by blast
    have k: "cu_id parent = x" by (rule listed_iff_file_path(2) [OF ix l])
    have c: "is_container i unit parent"
      unfolding is_container_def using h(6,7,8,9) k by simp
    show "x \<in> ?C" using h(1,2,3) l c k by blast
  qed
  then show ?thesis using all by simp
qed

lemma get_unit_new: "get_unit UnitManager_new k = None"
  by (simp add: get_unit_def UnitManager_new_def)

lemma um_same_range_indexed: "um_indexed um_same_range"
  unfolding um_same_range_def
  by (intro um_indexed_add_unit um_indexed_new)
     (simp_all add: get_unit_add_unit get_unit_new mk_unit_def)

section \<open>Further properties of the specified invariants\<close>

subsection \<open>Hashing, change detection and the update cycle\<close>


lemma of_char_lt_256: "(of_char c :: nat) < 256"
proof -
  have "(of_char c :: nat) mod 256 = of_char c" by (rule of_char_mod_256)
  then show ?thesis by (metis mod_less_divisor zero_less_numeral)
qed

lemma char_unsigned: "char_to_uint64 False c = of_nat (of_char c)"
proof -
  have "(of_char c :: 8 word) = of_nat (of_char c)" by (simp only: of_nat_of_char)
  then have "(ucast (of_char c :: 8 word) :: 64 word) = ucast (of_nat (of_char c) :: 8 word)"
    by simp
  also have "\<dots> = of_nat (take_bit 8 (of_char c :: nat))"
    by (simp add: unsigned_of_nat)
  also have "take_bit 8 (of_char c :: nat) = of_char c"
    using of_char_lt_256 [of c] by (simp add: take_bit_nat_eq_self)
  finally show ?thesis by (simp add: char_to_uint64_def)
qed

text \<open>
  Where plain \<open>char\<close> is unsigned, \<open>fnv1a_hash\<close> is the standard FNV-1a 64 of the bytes.
\<close>

theorem fnv1a_unsigned_is_standard: "fnv1a_hash False data = fnv1a_64_standard data"
proof -
  have "fold (\<lambda>c hash. (hash XOR char_to_uint64 False c) * 1099511628211) data h
      = fold (\<lambda>c hash. (hash XOR of_nat (of_char c)) * 0x100000001b3) data h" for h :: "64 word"
    by (induction data arbitrary: h) (simp_all add: char_unsigned)
  then show ?thesis by (simp add: fnv1a_hash_def fnv1a_64_standard_def)
qed

lemma hex_digit_in: "d < 16 \<Longrightarrow> hex_digit d \<in> set ''0123456789abcdef''"
  unfolding hex_digit_def by (rule nth_mem) simp

lemma hex_of_nat_length: "n < 16 ^ k \<Longrightarrow> 0 < k \<Longrightarrow> length (hex_of_nat n) \<le> k"
proof (induction k arbitrary: n)
  case 0
  then show ?case by simp
next
  case (Suc k)
  show ?case
  proof (cases "n < 16")
    case True
    then show ?thesis by (simp add: hex_of_nat.simps)
  next
    case False
    then have k: "0 < k" using Suc.prems by (cases k) auto
    have "n div 16 < 16 ^ k" using Suc.prems(1) by (simp add: less_mult_imp_div_less mult.commute)
    from Suc.IH [OF this k] False show ?thesis
      by (subst hex_of_nat.simps) simp
  qed
qed

lemma hex_of_nat_digits: "set (hex_of_nat n) \<subseteq> set ''0123456789abcdef''"
proof (induction n rule: hex_of_nat.induct)
  case (1 n)
  show ?case
  proof (cases "n < 16")
    case True
    then show ?thesis using hex_digit_in [of n] by (subst hex_of_nat.simps) simp
  next
    case False
    have "n mod 16 < 16" by simp
    from hex_digit_in [OF this] 1 [OF False] False show ?thesis
      by (subst hex_of_nat.simps) simp
  qed
qed

text \<open>
  \<open>compute_hash\<close> always returns sixteen lowercase hexadecimal digits, whatever the
  signedness of \<open>char\<close>.
\<close>

theorem compute_hash_16_hex_digits:
  "length (compute_hash cs content) = 16
   \<and> set (compute_hash cs content) \<subseteq> set ''0123456789abcdef''"
proof -
  let ?h = "hex_of_nat (unat (fnv1a_hash cs content))"
  have "unat (fnv1a_hash cs content) < 2 ^ 64"
    using unsigned_less [of "fnv1a_hash cs content"] by simp
  then have "unat (fnv1a_hash cs content) < 16 ^ 16" by simp
  then have l: "length ?h \<le> 16" by (rule hex_of_nat_length) simp
  have d: "set ?h \<subseteq> set ''0123456789abcdef''" by (rule hex_of_nat_digits)
  have "length (setw_fill 16 (CHR ''0'') ?h) = 16" using l by (simp add: setw_fill_def)
  moreover have "set (setw_fill 16 (CHR ''0'') ?h) \<subseteq> set ''0123456789abcdef''"
    using d by (auto simp: setw_fill_def)
  ultimately show ?thesis by (simp add: compute_hash_def)
qed


lemma get_changed_lines_same_hashes:
  assumes "line_hashes old_snap = line_hashes new_snap"
  shows "get_changed_lines old_snap new_snap = []"
proof -
  let ?xs = "line_hashes new_snap"
  have "snd ` set (lcs_backtrace ?xs ?xs (lcs_table ?xs ?xs) (0 + length ?xs) (0 + length ?xs) [])
        = {0..<0 + length ?xs}
          \<union> snd ` set (lcs_backtrace ?xs ?xs (lcs_table ?xs ?xs) 0 0 [])"
    by (rule lcs_backtrace_suffix) simp
  then have "snd ` set (compute_lcs ?xs ?xs) = {0..<length ?xs}"
    by (simp add: compute_lcs_def lcs_backtrace_stop)
  then show ?thesis
    by (simp add: get_changed_lines_def assms)
qed

text \<open>
  Comparing a snapshot with itself reports no changed line.
\<close>

theorem get_changed_lines_idempotent: "get_changed_lines s s = []"
  by (rule get_changed_lines_same_hashes) simp

lemma mark_lines_Nil [simp]: "mark_lines fp [] p = p"
  by (cases p) simp

lemma map_of_update_same: "map_of (AList.update k v al) k = Some v"
  by (simp add: update_conv')

lemma update_source_installs:
  "\<exists>e. snd (update_source cs t eng fp content)
         = install_snapshot e fp (create_snapshot cs t fp content)"
  by (auto simp: update_source_def Let_def split: option.splits prod.splits)

lemma snapshot_after_install:
  "\<exists>old. map_of (eng_snapshots (install_snapshot e fp s)) fp = Some old
         \<and> line_hashes old = line_hashes s"
  by (simp add: install_snapshot_def Let_def map_of_update_same)

text \<open>
  Scenario S6: a second \<open>update_source\<close> with the same content reports no change and
  leaves nothing to compile.
\<close>

theorem update_source_twice_nothing_to_compile:
  "units_to_compile
     (snd (update_source cs t2 (snd (update_source cs t1 eng fp content)) fp content)) = []
   \<and> fst (update_source cs t2 (snd (update_source cs t1 eng fp content)) fp content) = []"
proof -
  let ?e1 = "snd (update_source cs t1 eng fp content)"
  obtain e where e: "?e1 = install_snapshot e fp (create_snapshot cs t1 fp content)"
    using update_source_installs by blast
  obtain old where old: "map_of (eng_snapshots ?e1) fp = Some old"
    and lh1: "line_hashes old = line_hashes (create_snapshot cs t1 fp content)"
    unfolding e using snapshot_after_install by blast
  have lh: "line_hashes old = line_hashes (create_snapshot cs t2 fp content)"
    using lh1 by (simp add: create_snapshot_def)
  have ch: "get_changed_lines old (create_snapshot cs t2 fp content) = []"
    by (rule get_changed_lines_same_hashes [OF lh])
  show ?thesis
    using old ch
    by (simp add: update_source_def Let_def expand_to_boundaries_def set_of_vector_def
        change_records_def List.map_filter_simps)
qed

text \<open>
  \<open>add_dependency\<close> between two stored units records the edge on both sides, and
  adding it a second time changes nothing.
\<close>

theorem add_dependency_symmetric:
  assumes "get_unit um from_id \<noteq> None" "get_unit um to_id \<noteq> None"
  shows "to_id \<in> set (get_dependencies (add_dependency um from_id to_id) from_id)
         \<and> from_id \<in> set (get_dependents (add_dependency um from_id to_id) to_id)
         \<and> add_dependency (add_dependency um from_id to_id) from_id to_id
             = add_dependency um from_id to_id"
proof -
  define f :: "CompilationUnit \<Rightarrow> CompilationUnit" where "f = (\<lambda>u. if to_id \<in> set (dependencies u) then u
                 else u\<lparr>dependencies := dependencies u @ [to_id]\<rparr>)"
  define g :: "CompilationUnit \<Rightarrow> CompilationUnit" where "g = (\<lambda>u. if from_id \<in> set (dependents u) then u
                 else u\<lparr>dependents := dependents u @ [from_id]\<rparr>)"
  have f_in: "to_id \<in> set (dependencies (f u))" for u by (simp add: f_def)
  have g_in: "from_id \<in> set (dependents (g u))" for u by (simp add: g_def)
  have f_g: "dependencies (g u) = dependencies u" for u by (simp add: g_def)
  have f_id: "f u = u" if "to_id \<in> set (dependencies u)" for u using that by (simp add: f_def)
  have g_id: "g u = u" if "from_id \<in> set (dependents u)" for u using that by (simp add: g_def)
  have add: "add_dependency m from_id to_id
               = modify_unit (modify_unit m from_id f) to_id g"
    if "get_unit m from_id \<noteq> None" "get_unit m to_id \<noteq> None" for m
    using that by (simp add: add_dependency_def Let_def f_def g_def)
  let ?um1 = "modify_unit um from_id f"
  let ?um2 = "modify_unit ?um1 to_id g"
  obtain uf ut where uf: "get_unit um from_id = Some uf" and ut: "get_unit um to_id = Some ut"
    using assms by auto
  obtain vf where vf: "get_unit ?um2 from_id = Some vf" "to_id \<in> set (dependencies vf)"
    using uf f_in f_g by (cases "from_id = to_id") (simp_all add: get_unit_modify)
  obtain vt where vt: "get_unit ?um2 to_id = Some vt" "from_id \<in> set (dependents vt)"
    using uf ut g_in by (cases "from_id = to_id") (simp_all add: get_unit_modify)
  have m_id: "modify_unit m k h = m" if "get_unit m k = Some u" "h u = u" for m k h u
    using that by (cases m) (simp add: modify_unit_def get_unit_def update_triv)
  have s1: "modify_unit ?um2 from_id f = ?um2"
    using m_id [of ?um2 from_id vf f] vf(1) f_id [OF vf(2)] by simp
  have s2: "modify_unit ?um2 to_id g = ?um2"
    using m_id [of ?um2 to_id vt g] vt(1) g_id [OF vt(2)] by simp
  have e: "add_dependency um from_id to_id = ?um2"
    by (rule add [OF assms])
  have c: "add_dependency ?um2 from_id to_id = ?um2"
    using add [of ?um2] vf(1) vt(1) by (simp add: s1 s2)
  have a: "to_id \<in> set (get_dependencies ?um2 from_id)"
    using vf by (simp add: get_dependencies_def)
  have b: "from_id \<in> set (get_dependents ?um2 to_id)"
    using vt by (simp add: get_dependents_def)
  show ?thesis unfolding e using a b c by blast
qed


subsection \<open>LRUCache: size bound and read-after-write\<close>

lemma alist_in_keys: "map_of al k = Some v \<Longrightarrow> k \<in> fst ` set al"
  by (metis map_of_eq_None_iff option.distinct(1))

lemma alist_notin_keys: "map_of al k = None \<Longrightarrow> k \<notin> fst ` set al"
  by (simp add: map_of_eq_None_iff)

lemma lru_inv_new: "lru_inv (LRUCache_new n)"
  by (simp add: lru_inv_def LRUCache_new_def)

lemma lru_inv_touch:
  assumes "lru_inv c" "map_of (lru_cache c) key = Some v"
  shows "lru_inv (c\<lparr>lru_cache := AList.update key w (lru_cache c),
                    lru_usage_order := key # remove1 key (lru_usage_order c)\<rparr>)"
proof -
  have k: "key \<in> fst ` set (lru_cache c)" by (rule alist_in_keys [OF assms(2)])
  have l: "length (AList.update key w (lru_cache c)) = length (lru_cache c)"
    by (rule alist_length_update_old [OF assms(2)])
  show ?thesis
    using assms(1) k l unfolding lru_inv_def
    by (auto simp: distinct_update dom_update)
qed

lemma lru_inv_insert_new:
  assumes d: "distinct (map fst (lru_cache c))" "distinct (lru_usage_order c)"
      and s: "set (lru_usage_order c) = fst ` set (lru_cache c)"
      and none: "map_of (lru_cache c) key = None"
      and room: "Suc (length (lru_cache c)) \<le> lru_max_size c"
  shows "lru_inv (LRUCache_insert_new c key val)"
proof -
  have k: "key \<notin> fst ` set (lru_cache c)" by (rule alist_notin_keys [OF none])
  have l: "length (AList.update key val (lru_cache c)) = Suc (length (lru_cache c))"
    by (rule alist_length_update_new [OF none])
  show ?thesis
    using d s k l room unfolding lru_inv_def LRUCache_insert_new_def
    by (auto simp: distinct_update dom_update)
qed

lemma lru_inv_put:
  assumes inv: "lru_inv c" and put: "LRUCache_put c key val = Some (r, c')"
  shows "lru_inv c'"
proof (cases "map_of (lru_cache c) key")
  case (Some v)
  then have "c' = c\<lparr>lru_cache := AList.update key val (lru_cache c),
                    lru_usage_order := key # remove1 key (lru_usage_order c)\<rparr>"
    using put by (simp add: LRUCache_put_def)
  then show ?thesis using lru_inv_touch [OF inv Some, of val] by simp
next
  case None
  have d: "distinct (map fst (lru_cache c))" "distinct (lru_usage_order c)"
    and s: "set (lru_usage_order c) = fst ` set (lru_cache c)"
    and le: "length (lru_cache c) \<le> lru_max_size c"
    using inv unfolding lru_inv_def by blast+
  show ?thesis
  proof (cases "length (lru_cache c) \<ge> lru_max_size c")
    case False
    then have "c' = LRUCache_insert_new c key val"
      using put None by (simp add: LRUCache_put_def)
    moreover have "lru_inv (LRUCache_insert_new c key val)"
      using False by (intro lru_inv_insert_new [OF d s None]) simp
    ultimately show ?thesis by simp
  next
    case True
    then have ne: "lru_usage_order c \<noteq> []"
      using put None by (auto simp: LRUCache_put_def split: if_splits)
    let ?v = "last (lru_usage_order c)"
    let ?c1 = "c\<lparr>lru_usage_order := butlast (lru_usage_order c),
                   lru_cache := AList.delete ?v (lru_cache c)\<rparr>"
    have c': "c' = LRUCache_insert_new ?c1 key val"
      using put None True ne by (simp add: LRUCache_put_def Let_def)
    have vin: "?v \<in> fst ` set (lru_cache c)" using ne s by (metis last_in_set)
    then obtain w where w: "map_of (lru_cache c) ?v = Some w"
      by (cases "map_of (lru_cache c) ?v") (auto simp: map_of_eq_None_iff)
    have bl: "butlast (lru_usage_order c) = remove1 ?v (lru_usage_order c)"
      by (rule butlast_remove1_last [OF d(2) ne])
    have d1: "distinct (map fst (lru_cache ?c1))" using d(1) by (simp add: distinct_delete)
    have d2: "distinct (lru_usage_order ?c1)" using d(2) by (simp add: distinct_butlast)
    have s1: "set (lru_usage_order ?c1) = fst ` set (lru_cache ?c1)"
      using s d(2) by (simp add: bl alist_keys_delete)
    have n1: "map_of (lru_cache ?c1) key = None" using None by (simp add: delete_conv')
    have r1: "Suc (length (lru_cache ?c1)) \<le> lru_max_size ?c1"
      using alist_length_delete [OF d(1) w] le by simp
    show ?thesis unfolding c' by (rule lru_inv_insert_new [OF d1 d2 s1 n1 r1])
  qed
qed

lemma lru_inv_get: "lru_inv c \<Longrightarrow> lru_inv (snd (LRUCache_get c key))"
proof (cases "map_of (lru_cache c) key")
  case None
  assume "lru_inv c"
  then show ?thesis using None by (simp add: LRUCache_get_def)
next
  case (Some v)
  assume inv: "lru_inv c"
  have "AList.update key v (lru_cache c) = lru_cache c" by (rule update_triv [OF Some])
  then show ?thesis
    using lru_inv_touch [OF inv Some, of v] Some by (simp add: LRUCache_get_def)
qed

lemma lru_inv_remove: "lru_inv c \<Longrightarrow> lru_inv (snd (LRUCache_remove c key))"
proof (cases "map_of (lru_cache c) key")
  case None
  assume "lru_inv c"
  then show ?thesis using None by (simp add: LRUCache_remove_def)
next
  case (Some v)
  assume inv: "lru_inv c"
  have d: "distinct (map fst (lru_cache c))" using inv unfolding lru_inv_def by blast
  have l: "Suc (length (AList.delete key (lru_cache c))) = length (lru_cache c)"
    by (rule alist_length_delete [OF d Some])
  show ?thesis
    using inv Some l unfolding lru_inv_def
    by (simp add: LRUCache_remove_def distinct_delete alist_keys_delete)
qed

lemma lru_step_Put:
  assumes "LRUCache_step c (Put key val) = Some c'"
  shows "\<exists>r. LRUCache_put c key val = Some (r, c')"
proof (cases "LRUCache_put c key val")
  case None
  with assms show ?thesis by simp
next
  case (Some p)
  with assms have "snd p = c'" by simp
  then have "p = (fst p, c')" by (cases p) simp
  with Some show ?thesis by metis
qed

lemma lru_inv_step:
  assumes "lru_inv c" "LRUCache_step c x = Some c'"
  shows "lru_inv c'"
proof (cases x)
  case (Put key val)
  then obtain r where "LRUCache_put c key val = Some (r, c')"
    using lru_step_Put assms(2) by blast
  then show ?thesis by (rule lru_inv_put [OF assms(1)])
next
  case (Get key)
  with assms(2) have "c' = snd (LRUCache_get c key)" by simp
  then show ?thesis using lru_inv_get [OF assms(1), of key] by simp
next
  case (Remove key)
  with assms(2) have "c' = snd (LRUCache_remove c key)" by simp
  then show ?thesis using lru_inv_remove [OF assms(1), of key] by simp
qed

lemma lru_max_size_step:
  assumes "LRUCache_step c x = Some c'"
  shows "lru_max_size c' = lru_max_size c"
proof (cases x)
  case (Put key val)
  then obtain r where "LRUCache_put c key val = Some (r, c')"
    using lru_step_Put assms by blast
  then show ?thesis
    unfolding LRUCache_put_def Let_def LRUCache_insert_new_def
    by (auto split: option.splits if_splits)
next
  case (Get key)
  with assms have "c' = snd (LRUCache_get c key)" by simp
  then show ?thesis by (simp add: LRUCache_get_def split: option.splits)
next
  case (Remove key)
  with assms have "c' = snd (LRUCache_remove c key)" by simp
  then show ?thesis by (simp add: LRUCache_remove_def split: option.splits)
qed

lemma lru_inv_run:
  "lru_inv c \<Longrightarrow> LRUCache_run c ops = Some c' \<Longrightarrow>
   lru_inv c' \<and> lru_max_size c' = lru_max_size c"
proof (induction ops arbitrary: c)
  case Nil
  then show ?case by simp
next
  case (Cons x xs)
  then obtain c1 where s: "LRUCache_step c x = Some c1" and r: "LRUCache_run c1 xs = Some c'"
    by (auto split: option.splits)
  have "lru_inv c1" by (rule lru_inv_step [OF Cons.prems(1) s])
  from Cons.IH [OF this r] lru_max_size_step [OF s] show ?case by simp
qed

text \<open>
  After any run of operations from an empty cache that stays defined, the cache holds
  at most \<open>capacity\<close> entries, one usage-list position per entry.
\<close>

theorem lru_size_within_capacity:
  assumes "LRUCache_run (LRUCache_new cap) ops = Some c"
  shows "LRUCache_size c \<le> cap \<and> length (lru_usage_order c) = LRUCache_size c"
proof -
  have i: "lru_inv c" and m: "lru_max_size c = cap"
    using lru_inv_run [OF lru_inv_new assms] by (simp_all add: LRUCache_new_def)
  have d1: "distinct (map fst (lru_cache c))" and d2: "distinct (lru_usage_order c)"
    and s: "set (lru_usage_order c) = fst ` set (lru_cache c)"
    using i unfolding lru_inv_def by blast+
  have "length (lru_usage_order c) = card (set (lru_usage_order c))"
    by (rule distinct_card [OF d2, symmetric])
  also have "\<dots> = card (set (map fst (lru_cache c)))" by (simp only: s set_map)
  also have "\<dots> = length (map fst (lru_cache c))" by (rule distinct_card [OF d1])
  also have "\<dots> = length (lru_cache c)" by simp
  finally show ?thesis using i m unfolding lru_inv_def LRUCache_size_def by simp
qed

text \<open>
  After \<open>put(k, v)\<close> the key is the most recently used one and \<open>get(k)\<close> returns \<open>v\<close>.
\<close>

theorem lru_put_then_get:
  assumes "LRUCache_put c key val = Some (r, c')"
  shows "fst (LRUCache_get c' key) = val \<and> hd (lru_usage_order c') = key \<and> r"
  using assms
  unfolding LRUCache_put_def LRUCache_get_def LRUCache_insert_new_def Let_def
  by (auto simp: update_conv' split: option.splits if_splits)

end
